theory Spec2Isabelle
  imports Main "HOL-Library.Word" "HOL-Library.Signed_Division"
begin

unbundle bit_operations_syntax

section \<open>Value words (wikrt.h)\<close>

text \<open>
  A value reference is a 32-bit word (\<open>typedef uint32_t wikrt_val\<close>); sizes, addresses
  and tags are the same type. The C types \<open>int32_t\<close> and \<open>int64_t\<close> are modelled by
  \<open>32 word\<close> and \<open>64 word\<close> read through \<open>sint\<close>.
\<close>

type_synonym wikrt_val = "32 word"
type_synonym wikrt_size = "32 word"
type_synonym wikrt_sizeb = "32 word"
type_synonym wikrt_addr = "32 word"
type_synonym wikrt_tag = "32 word"

text \<open>The error codes named by the sources (the enumeration itself is in the public header).\<close>

datatype wikrt_err =
    WIKRT_OK
  | WIKRT_INVAL
  | WIKRT_IMPL
  | WIKRT_TYPE_ERROR
  | WIKRT_CXFULL
  | WIKRT_BUFFSZ

definition WIKRT_CELLSIZE :: wikrt_size where
  "WIKRT_CELLSIZE = 8"

definition WIKRT_PAGESIZE :: wikrt_size where
  "WIKRT_PAGESIZE = push_bit 14 1"

text \<open>\<open>WIKRT_LNBUFF_POW2(SZ,LN) = ((SZ + (LN - 1)) & ~(LN - 1))\<close>\<close>

definition WIKRT_LNBUFF_POW2 :: "wikrt_size \<Rightarrow> wikrt_size \<Rightarrow> wikrt_size" where
  "WIKRT_LNBUFF_POW2 sz ln = (sz + (ln - 1)) AND NOT (ln - 1)"

definition WIKRT_CELLBUFF :: "wikrt_size \<Rightarrow> wikrt_sizeb" where
  "WIKRT_CELLBUFF sz = WIKRT_LNBUFF_POW2 sz WIKRT_CELLSIZE"

definition WIKRT_PAGEBUFF :: "wikrt_size \<Rightarrow> wikrt_sizeb" where
  "WIKRT_PAGEBUFF sz = WIKRT_LNBUFF_POW2 sz WIKRT_PAGESIZE"

definition WIKRT_O :: wikrt_tag where "WIKRT_O = 1"
definition WIKRT_P :: wikrt_tag where "WIKRT_P = 3"
definition WIKRT_PL :: wikrt_tag where "WIKRT_PL = 5"
definition WIKRT_PR :: wikrt_tag where "WIKRT_PR = 7"

definition WIKRT_VOID :: wikrt_val where "WIKRT_VOID = WIKRT_O"
definition WIKRT_UNIT :: wikrt_val where "WIKRT_UNIT = WIKRT_P"
definition WIKRT_UNIT_INL :: wikrt_val where "WIKRT_UNIT_INL = WIKRT_PL"
definition WIKRT_UNIT_INR :: wikrt_val where "WIKRT_UNIT_INR = WIKRT_PR"

definition WIKRT_MASK_TAG :: wikrt_val where "WIKRT_MASK_TAG = 7"
definition WIKRT_MASK_ADDR :: wikrt_val where "WIKRT_MASK_ADDR = NOT WIKRT_MASK_TAG"

definition wikrt_vaddr :: "wikrt_val \<Rightarrow> wikrt_addr" where
  "wikrt_vaddr v = v AND WIKRT_MASK_ADDR"

definition wikrt_vtag :: "wikrt_val \<Rightarrow> wikrt_tag" where
  "wikrt_vtag v = v AND WIKRT_MASK_TAG"

definition wikrt_tag_addr :: "wikrt_tag \<Rightarrow> wikrt_addr \<Rightarrow> wikrt_val" where
  "wikrt_tag_addr t a = t OR a"

subsection \<open>Small integers\<close>

definition WIKRT_SMALLINT_MAX :: int where
  "WIKRT_SMALLINT_MAX = 2 ^ 30 - 1"

definition WIKRT_SMALLINT_MIN :: int where
  "WIKRT_SMALLINT_MIN = - WIKRT_SMALLINT_MAX"

text \<open>\<open>wikrt_i2v\<close> shifts the \<open>int32_t\<close> left by one; \<open>wikrt_v2i\<close> is the arithmetic
  right shift of the word read as \<open>int32_t\<close>.\<close>

definition wikrt_i2v :: "32 word \<Rightarrow> wikrt_val" where
  "wikrt_i2v n = push_bit 1 n"

definition wikrt_v2i :: "wikrt_val \<Rightarrow> 32 word" where
  "wikrt_v2i v = signed_drop_bit 1 v"

definition wikrt_i :: "wikrt_val \<Rightarrow> bool" where
  "wikrt_i v \<longleftrightarrow> (0 = v AND 1)"

subsection \<open>Object tags\<close>

definition WIKRT_OTAG_BIGINT :: wikrt_val where "WIKRT_OTAG_BIGINT = 78"
definition WIKRT_OTAG_DEEPSUM :: wikrt_val where "WIKRT_OTAG_DEEPSUM = 83"
definition WIKRT_OTAG_BLOCK :: wikrt_val where "WIKRT_OTAG_BLOCK = 91"
definition WIKRT_OTAG_SEAL :: wikrt_val where "WIKRT_OTAG_SEAL = 36"
definition WIKRT_OTAG_SEAL_SM :: wikrt_val where "WIKRT_OTAG_SEAL_SM = 58"
definition WIKRT_OTAG_ARRAY :: wikrt_val where "WIKRT_OTAG_ARRAY = 86"
definition WIKRT_OTAG_BINARY :: wikrt_val where "WIKRT_OTAG_BINARY = 56"
definition WIKRT_OTAG_TEXT :: wikrt_val where "WIKRT_OTAG_TEXT = 34"
definition WIKRT_OTAG_STOWAGE :: wikrt_val where "WIKRT_OTAG_STOWAGE = 64"

definition LOBYTE :: "wikrt_val \<Rightarrow> wikrt_val" where
  "LOBYTE v = v AND 0xFF"

definition WIKRT_DEEPSUMR :: wikrt_val where "WIKRT_DEEPSUMR = 3"
definition WIKRT_DEEPSUML :: wikrt_val where "WIKRT_DEEPSUML = 2"

definition WIKRT_BIGINT_DIGIT :: int where
  "WIKRT_BIGINT_DIGIT = 1000000000"


definition wikrt_otag_bigint :: "wikrt_val \<Rightarrow> bool" where
  "wikrt_otag_bigint v \<longleftrightarrow> WIKRT_OTAG_BIGINT = LOBYTE v"

definition wikrt_otag_deepsum :: "wikrt_val \<Rightarrow> bool" where
  "wikrt_otag_deepsum v \<longleftrightarrow> WIKRT_OTAG_DEEPSUM = LOBYTE v"

definition wikrt_otag_block :: "wikrt_val \<Rightarrow> bool" where
  "wikrt_otag_block v \<longleftrightarrow> WIKRT_OTAG_BLOCK = LOBYTE v"

definition wikrt_otag_seal :: "wikrt_val \<Rightarrow> bool" where
  "wikrt_otag_seal v \<longleftrightarrow> WIKRT_OTAG_SEAL = LOBYTE v"

definition wikrt_otag_seal_sm :: "wikrt_val \<Rightarrow> bool" where
  "wikrt_otag_seal_sm v \<longleftrightarrow> WIKRT_OTAG_SEAL_SM = LOBYTE v"

definition wikrt_otag_array :: "wikrt_val \<Rightarrow> bool" where
  "wikrt_otag_array v \<longleftrightarrow> WIKRT_OTAG_ARRAY = LOBYTE v"



text \<open>\<open>(((nDigits << 1) | (positive ? 0 : 1)) << 8) | WIKRT_OTAG_BIGINT\<close>\<close>

definition wikrt_mkotag_bigint :: "bool \<Rightarrow> wikrt_size \<Rightarrow> wikrt_val" where
  "wikrt_mkotag_bigint positive nDigits =
     push_bit 8 (push_bit 1 nDigits OR (if positive then 0 else 1)) OR WIKRT_OTAG_BIGINT"


section \<open>Context memory\<close>

text \<open>
  The arena \<open>cx->memory\<close> is a byte array addressed by 32-bit offsets. A
  \<open>wikrt_val*\<close> obtained from \<open>wikrt_pval\<close> reads and writes four consecutive bytes; the
  byte order is little-endian (no result below depends on the order).
\<close>

type_synonym memory = "wikrt_addr \<Rightarrow> 8 word"

definition load32 :: "memory \<Rightarrow> wikrt_addr \<Rightarrow> 32 word" where
  "load32 m a =
     ucast (m a) OR push_bit 8 (ucast (m (a + 1))) OR
     push_bit 16 (ucast (m (a + 2))) OR push_bit 24 (ucast (m (a + 3)))"

definition store32 :: "memory \<Rightarrow> wikrt_addr \<Rightarrow> 32 word \<Rightarrow> memory" where
  "store32 m a w =
     m(a := ucast w, a + 1 := ucast (drop_bit 8 w),
       a + 2 := ucast (drop_bit 16 w), a + 3 := ucast (drop_bit 24 w))"

text \<open>\<open>memcpy\<close> of a byte string into the arena, and the read of \<open>n\<close> bytes back.\<close>

primrec store_bytes :: "memory \<Rightarrow> wikrt_addr \<Rightarrow> 8 word list \<Rightarrow> memory" where
  "store_bytes m a [] = m"
| "store_bytes m a (b # bs) = store_bytes (m(a := b)) (a + 1) bs"

primrec load_bytes :: "memory \<Rightarrow> wikrt_addr \<Rightarrow> nat \<Rightarrow> 8 word list" where
  "load_bytes m a 0 = []"
| "load_bytes m a (Suc n) = m a # load_bytes m (a + 1) n"

subsection \<open>Free lists\<close>

record wikrt_flst =
  head :: wikrt_addr
  tail :: wikrt_addr

record wikrt_fl =
  free_bytes :: wikrt_size
  frag_count :: wikrt_size
  size_class :: "wikrt_flst list"

definition WIKRT_FLCT :: nat where
  "WIKRT_FLCT = 16 + 10"

text \<open>The zero-initialised structure \<open>(wikrt_fl) { 0 }\<close>.\<close>

definition wikrt_fl_zero :: wikrt_fl where
  "wikrt_fl_zero =
     \<lparr> free_bytes = 0, frag_count = 0,
       size_class = replicate WIKRT_FLCT \<lparr> head = 0, tail = 0 \<rparr> \<rparr>"

text \<open>
  The free-list primitives \<open>wikrt_fl_alloc\<close>, \<open>wikrt_fl_free\<close>, \<open>wikrt_fl_coalesce\<close> and
  \<open>wikrt_fl_merge\<close> are declared in wikrt.h and defined elsewhere. They are parameters
  of the model: each receives the arena and the free-list structures it is passed in C
  and returns everything it may have written (\<open>wikrt_fl_alloc\<close> also its \<open>bool\<close> result
  and the address stored through its last argument).
\<close>

record fl_prims =
  wikrt_fl_alloc :: "memory \<Rightarrow> wikrt_fl \<Rightarrow> wikrt_sizeb \<Rightarrow> bool \<times> wikrt_addr \<times> memory \<times> wikrt_fl"
  wikrt_fl_free :: "memory \<Rightarrow> wikrt_fl \<Rightarrow> wikrt_sizeb \<Rightarrow> wikrt_addr \<Rightarrow> memory \<times> wikrt_fl"
  wikrt_fl_coalesce :: "memory \<Rightarrow> wikrt_fl \<Rightarrow> memory \<times> wikrt_fl"
  wikrt_fl_merge :: "memory \<Rightarrow> wikrt_fl \<Rightarrow> wikrt_fl \<Rightarrow> memory \<times> wikrt_fl \<times> wikrt_fl"

subsection \<open>Contexts\<close>

text \<open>
  The fields of \<open>struct wikrt_cx\<close> that the value operations touch; \<open>cxm_fl\<close> is the
  shared free list \<open>cx->cxm->fl\<close> (the arena of the context and of its \<open>cxm\<close> is the
  same memory).
\<close>

record wikrt_cx =
  memory :: memory
  fl :: wikrt_fl
  cxm_fl :: wikrt_fl
  ct_bytes_freed :: "64 word"
  ct_bytes_alloc :: "64 word"

text \<open>\<open>wikrt_pval(cx, addr)[i]\<close>, read and written.\<close>

definition pval_get :: "wikrt_cx \<Rightarrow> wikrt_addr \<Rightarrow> nat \<Rightarrow> wikrt_val" where
  "pval_get cx addr i = load32 (memory cx) (addr + 4 * of_nat i)"

definition pval_set :: "wikrt_cx \<Rightarrow> wikrt_addr \<Rightarrow> nat \<Rightarrow> wikrt_val \<Rightarrow> wikrt_cx" where
  "pval_set cx addr i w = cx\<lparr> memory := store32 (memory cx) (addr + 4 * of_nat i) w \<rparr>"

definition wikrt_alloc_local ::
  "fl_prims \<Rightarrow> wikrt_cx \<Rightarrow> wikrt_sizeb \<Rightarrow> bool \<times> wikrt_addr \<times> wikrt_cx" where
  "wikrt_alloc_local prims cx sz =
     (case wikrt_fl_alloc prims (memory cx) (fl cx) sz of (ok, addr, m', fl') \<Rightarrow>
        if ok then
          (True, addr, cx\<lparr> memory := m', fl := fl',
                           ct_bytes_alloc := ct_bytes_alloc cx + ucast sz \<rparr>)
        else (False, addr, cx\<lparr> memory := m', fl := fl' \<rparr>))"

definition wikrt_acquire_shm :: "fl_prims \<Rightarrow> wikrt_cx \<Rightarrow> wikrt_sizeb \<Rightarrow> bool \<times> wikrt_cx" where
  "wikrt_acquire_shm prims cx sz =
     (case wikrt_fl_alloc prims (memory cx) (cxm_fl cx) sz of (ok, block, m1, cxmfl1) \<Rightarrow>
        if ok then
          (case wikrt_fl_free prims m1 (fl cx) sz block of (m2, fl2) \<Rightarrow>
             (True, cx\<lparr> memory := m2, fl := fl2, cxm_fl := cxmfl1 \<rparr>))
        else (False, cx\<lparr> memory := m1, cxm_fl := cxmfl1 \<rparr>))"

text \<open>
  Allocate directly from the shared list if feasible; otherwise merge the local list
  into the shared one, coalesce and retry once; as a fallback take all shared space.
  \<open>wikrt_fl_merge\<close> is given (source, destination) and returns both, the source being
  overwritten by the caller as in C.
\<close>

definition wikrt_acquire_shared_memory :: "fl_prims \<Rightarrow> wikrt_cx \<Rightarrow> wikrt_sizeb \<Rightarrow> wikrt_cx" where
  "wikrt_acquire_shared_memory prims cx sz =
     (case wikrt_acquire_shm prims cx sz of (ok1, cx1) \<Rightarrow>
        if ok1 then cx1
        else
          (case wikrt_fl_merge prims (memory cx1) (fl cx1) (cxm_fl cx1) of (m2, src2, dst2) \<Rightarrow>
           case wikrt_fl_coalesce prims m2 dst2 of (m3, cxmfl3) \<Rightarrow>
             let cx3 = cx1\<lparr> memory := m3, fl := wikrt_fl_zero, cxm_fl := cxmfl3 \<rparr> in
             (case wikrt_acquire_shm prims cx3 sz of (ok4, cx4) \<Rightarrow>
                if ok4 then cx4
                else
                  (case wikrt_fl_merge prims (memory cx4) (cxm_fl cx4) (fl cx4) of (m5, src5, dst5) \<Rightarrow>
                     cx4\<lparr> memory := m5, fl := dst5, cxm_fl := wikrt_fl_zero \<rparr>))))"

definition wikrt_alloc ::
  "fl_prims \<Rightarrow> wikrt_cx \<Rightarrow> wikrt_size \<Rightarrow> bool \<times> wikrt_addr \<times> wikrt_cx" where
  "wikrt_alloc prims cx sz0 =
     (let sz = WIKRT_CELLBUFF sz0 in
      case wikrt_alloc_local prims cx sz of (ok, addr, cx1) \<Rightarrow>
        if ok then (True, addr, cx1)
        else wikrt_alloc_local prims (wikrt_acquire_shared_memory prims cx1 (WIKRT_PAGEBUFF sz)) sz)"

definition wikrt_free :: "fl_prims \<Rightarrow> wikrt_cx \<Rightarrow> wikrt_size \<Rightarrow> wikrt_addr \<Rightarrow> wikrt_cx" where
  "wikrt_free prims cx sz0 addr =
     (let sz = WIKRT_CELLBUFF sz0 in
      case wikrt_fl_free prims (memory cx) (fl cx) sz addr of (m', fl') \<Rightarrow>
        cx\<lparr> memory := m', fl := fl', ct_bytes_freed := ct_bytes_freed cx + ucast sz \<rparr>)"

text \<open>
  A \<open>wikrt_val*\<close> argument points either to a variable of the caller (the \<open>txt\<close>,
  \<open>dst\<close>, \<open>c\<close> or \<open>sv\<close> that receives a result) or to a word of the arena. A function
  that writes through such pointers is given the caller's variable together with the
  context and returns both.
\<close>

datatype val_ptr = Caller | Arena wikrt_addr

fun ptr_get :: "val_ptr \<Rightarrow> wikrt_val \<times> wikrt_cx \<Rightarrow> wikrt_val" where
  "ptr_get Caller (x, cx) = x"
| "ptr_get (Arena a) (x, cx) = load32 (memory cx) a"

fun ptr_set :: "val_ptr \<Rightarrow> wikrt_val \<Rightarrow> wikrt_val \<times> wikrt_cx \<Rightarrow> wikrt_val \<times> wikrt_cx" where
  "ptr_set Caller w (x, cx) = (w, cx)"
| "ptr_set (Arena a) w (x, cx) = (x, cx\<lparr> memory := store32 (memory cx) a w \<rparr>)"

text \<open>Allocate a cell value tagged with \<open>WIKRT_O\<close>, \<open>WIKRT_P\<close>, \<open>WIKRT_PL\<close>, or \<open>WIKRT_PR\<close>:
  on success the tagged address is stored through \<open>dst\<close>, then the two words of the cell
  are written.\<close>

definition wikrt_alloc_cellval ::
  "fl_prims \<Rightarrow> wikrt_val \<times> wikrt_cx \<Rightarrow> val_ptr \<Rightarrow> wikrt_tag \<Rightarrow> wikrt_val \<Rightarrow> wikrt_val \<Rightarrow>
     bool \<times> wikrt_val \<times> wikrt_cx" where
  "wikrt_alloc_cellval prims xcx dst tag v0 v1 =
     (case wikrt_alloc prims (snd xcx) WIKRT_CELLSIZE of (ok, addr, cx1) \<Rightarrow>
        if \<not> ok then (False, fst xcx, cx1)
        else
          (case ptr_set dst (wikrt_tag_addr tag addr) (fst xcx, cx1) of (x2, cx2) \<Rightarrow>
             (True, x2, pval_set (pval_set cx2 addr 0 v0) addr 1 v1)))"


section \<open>Integers (wikrt.c)\<close>

text \<open>
  The C operators \<open>/\<close> and \<open>%\<close> on signed operands truncate towards zero; they are
  taken on the signed readings of the words.
\<close>

definition c_sdiv :: "'a::len word \<Rightarrow> int \<Rightarrow> 'a word" where
  "c_sdiv n k = word_of_int (sint n sdiv k)"

definition c_smod :: "'a::len word \<Rightarrow> int \<Rightarrow> 'a word" where
  "c_smod n k = word_of_int (sint n smod k)"

definition INT32_MAX :: "32 word" where "INT32_MAX = 0x7FFFFFFF"
definition INT32_MIN :: "32 word" where "INT32_MIN = 0x80000000"
definition INT64_MAX :: "64 word" where "INT64_MAX = 0x7FFFFFFFFFFFFFFF"
definition INT64_MIN :: "64 word" where "INT64_MIN = 0x8000000000000000"

text \<open>
  An allocator for integers up to 3 big digits. The second component of the result is
  the value stored through \<open>v\<close>, \<open>None\<close> when the function returns without writing it.
  The digits are the \<open>uint32_t\<close> array that starts at the second word of the object.
\<close>

definition wikrt_alloc_medint ::
  "fl_prims \<Rightarrow> wikrt_cx \<Rightarrow> bool \<Rightarrow> 32 word \<Rightarrow> 32 word \<Rightarrow> 32 word \<Rightarrow>
     wikrt_err \<times> wikrt_val option \<times> wikrt_cx" where
  "wikrt_alloc_medint prims cx positive d0 d1 d2 =
     (if 0 = d2 then
        (let nDigits = 2; allocSz = 4 + nDigits * 4 in
         case wikrt_alloc prims cx allocSz of (ok, addr, cx1) \<Rightarrow>
           if \<not> ok then (WIKRT_CXFULL, None, cx1)
           else
             (let cx2 = pval_set cx1 addr 0 (wikrt_mkotag_bigint positive nDigits);
                  cx3 = pval_set cx2 addr 1 d0;
                  cx4 = pval_set cx3 addr 2 d1
              in (WIKRT_OK, Some (wikrt_tag_addr WIKRT_O addr), cx4)))
      else
        (let nDigits = 3; allocSz = 4 + nDigits * 4 in
         case wikrt_alloc prims cx allocSz of (ok, addr, cx1) \<Rightarrow>
           if \<not> ok then (WIKRT_CXFULL, None, cx1)
           else
             (let cx2 = pval_set cx1 addr 0 (wikrt_mkotag_bigint positive nDigits);
                  cx3 = pval_set cx2 addr 1 d0;
                  cx4 = pval_set cx3 addr 2 d1;
                  cx5 = pval_set cx4 addr 3 d2
              in (WIKRT_OK, Some (wikrt_tag_addr WIKRT_O addr), cx5))))"

text \<open>The result is the error code and the four outputs \<open>positive\<close>, \<open>d0\<close>, \<open>d1\<close>, \<open>d2\<close>.\<close>

definition wikrt_peek_medint ::
  "wikrt_cx \<Rightarrow> wikrt_val \<Rightarrow> wikrt_err \<times> bool \<times> 32 word \<times> 32 word \<times> 32 word" where
  "wikrt_peek_medint cx v =
     (if wikrt_i v then
        (let n = wikrt_v2i v;
             positive = (0 \<le> sint n);
             n' = (if positive then n else - n)
         in (WIKRT_OK, positive, c_smod n' WIKRT_BIGINT_DIGIT, c_sdiv n' WIKRT_BIGINT_DIGIT, 0))
      else
        (let tag = wikrt_vtag v; addr = wikrt_vaddr v;
             isBigInt = (0 \<noteq> addr \<and> WIKRT_O = tag \<and> wikrt_otag_bigint (pval_get cx addr 0))
         in if \<not> isBigInt then (WIKRT_TYPE_ERROR, False, 0, 0, 0)
            else
              (let pv0 = pval_get cx addr 0;
                   nDigits = drop_bit 9 pv0;
                   positive = (0 = push_bit 8 1 AND pv0);
                   d0 = pval_get cx addr 1;
                   d1 = pval_get cx addr 2;
                   d2 = (if nDigits > 2 then pval_get cx addr 3 else 0)
               in (if nDigits > 3 then WIKRT_BUFFSZ else WIKRT_OK, positive, d0, d1, d2))))"


text \<open>The digits are assigned to \<open>uint32_t\<close> variables, which truncates the 64-bit values.\<close>

definition wikrt_alloc_i64 ::
  "fl_prims \<Rightarrow> wikrt_cx \<Rightarrow> 64 word \<Rightarrow> wikrt_err \<times> wikrt_val option \<times> wikrt_cx" where
  "wikrt_alloc_i64 prims cx n =
     (if WIKRT_SMALLINT_MIN \<le> sint n \<and> sint n \<le> WIKRT_SMALLINT_MAX then
        (WIKRT_OK, Some (wikrt_i2v (ucast n)), cx)
      else if n \<noteq> INT64_MIN then
        (let positive = (0 \<le> sint n);
             n1 = (if positive then n else - n);
             d0 = ucast (c_smod n1 WIKRT_BIGINT_DIGIT);
             n2 = c_sdiv n1 WIKRT_BIGINT_DIGIT;
             d1 = ucast (c_smod n2 WIKRT_BIGINT_DIGIT);
             d2 = ucast (c_sdiv n2 WIKRT_BIGINT_DIGIT)
         in wikrt_alloc_medint prims cx positive d0 d1 d2)
      else wikrt_alloc_medint prims cx False 854775808 223372036 9)"

text \<open>The result is the error code and the number stored through \<open>i32\<close>.\<close>

definition wikrt_peek_i32 :: "wikrt_cx \<Rightarrow> wikrt_val \<Rightarrow> wikrt_err \<times> 32 word" where
  "wikrt_peek_i32 cx v =
     (if wikrt_i v then (WIKRT_OK, wikrt_v2i v)
      else
        case wikrt_peek_medint cx v of (st, positive, d0, d1, d2) \<Rightarrow>
          if WIKRT_OK \<noteq> st then (st, if positive then INT32_MAX else INT32_MIN)
          else
            (let digit = (1000000000 :: 32 word) in
             if positive then
               (let d1m = 2; d0m = 147483647;
                    overflow = (d2 \<noteq> 0 \<or> d1 > d1m \<or> (d1 = d1m \<and> d0 > d0m))
                in if overflow then (WIKRT_BUFFSZ, INT32_MAX)
                   else (WIKRT_OK, d1 * digit + d0))
             else
               (let d1m = 2; d0m = 147483648;
                    underflow = (d2 \<noteq> 0 \<or> d1 > d1m \<or> (d1 = d1m \<and> d0 > d0m))
                in if underflow then (WIKRT_BUFFSZ, INT32_MIN)
                   else (WIKRT_OK, 0 - d1 * digit - d0))))"

definition wikrt_peek_i64 :: "wikrt_cx \<Rightarrow> wikrt_val \<Rightarrow> wikrt_err \<times> 64 word" where
  "wikrt_peek_i64 cx v =
     (if wikrt_i v then (WIKRT_OK, scast (wikrt_v2i v))
      else
        case wikrt_peek_medint cx v of (st, positive, d0, d1, d2) \<Rightarrow>
          if WIKRT_OK \<noteq> st then (st, if positive then INT64_MAX else INT64_MIN)
          else
            (let digit = (1000000000 :: 64 word) in
             if 0 = d2 then
               (let iAbs = ucast d1 * digit + ucast d0
                in (WIKRT_OK, if positive then iAbs else - iAbs))
             else if positive then
               (let d2m = 9; d1m = 223372036; d0m = 854775807;
                    overflow = (d2 > d2m \<or>
                      (d2 = d2m \<and> (d1 > d1m \<or> (d1 = d1m \<and> d0 > d0m))))
                in if overflow then (WIKRT_BUFFSZ, INT64_MAX)
                   else (WIKRT_OK, ucast d2 * (digit * digit) + ucast d1 * digit + ucast d0))
             else
               (let d2m = 9; d1m = 223372036; d0m = 854775808;
                    underflow = (d2 > d2m \<or>
                      (d2 = d2m \<and> (d1 > d1m \<or> (d1 = d1m \<and> d0 > d0m))))
                in if underflow then (WIKRT_BUFFSZ, INT64_MIN)
                   else (WIKRT_OK, 0 - ucast d2 * (digit * digit) - ucast d1 * digit - ucast d0))))"

text \<open>\<open>_wikrt_alloc_istr\<close> stores \<open>WIKRT_VOID\<close> and returns \<open>WIKRT_IMPL\<close> whatever the string.\<close>

definition wikrt_alloc_istr ::
  "wikrt_cx \<Rightarrow> 8 word list \<Rightarrow> wikrt_err \<times> wikrt_val option \<times> wikrt_cx" where
  "wikrt_alloc_istr cx istr = (WIKRT_IMPL, Some WIKRT_VOID, cx)"

section \<open>Sums (wikrt.c)\<close>

text \<open>
  The functions \<open>_wikrt_alloc_sum\<close>, \<open>_wikrt_split_sum\<close> and their siblings are named
  here without the leading underscore. A result that C stores through a pointer of the
  caller is passed in with its previous content and returned.
\<close>

definition wikrt_alloc_sum ::
  "fl_prims \<Rightarrow> wikrt_cx \<Rightarrow> wikrt_val \<Rightarrow> bool \<Rightarrow> wikrt_val \<Rightarrow> wikrt_err \<times> wikrt_val \<times> wikrt_cx" where
  "wikrt_alloc_sum prims cx c inRight v =
     (let vtag = wikrt_vtag v; vaddr = wikrt_vaddr v; pv0 = pval_get cx vaddr 0 in
      if WIKRT_P = vtag then
        (let newtag = (if inRight then WIKRT_PR else WIKRT_PL)
         in (WIKRT_OK, wikrt_tag_addr newtag vaddr, cx))
      else if WIKRT_O = vtag \<and> wikrt_otag_deepsum pv0 \<and> pv0 < push_bit 30 1 then
        (let s0 = drop_bit 8 pv0;
             sf = push_bit 2 s0 OR (if inRight then WIKRT_DEEPSUMR else WIKRT_DEEPSUML);
             otag = push_bit 8 sf OR WIKRT_OTAG_DEEPSUM
         in (WIKRT_OK, v, pval_set cx vaddr 0 otag))
      else
        (let sf = (if inRight then WIKRT_DEEPSUMR else WIKRT_DEEPSUML);
             otag = push_bit 8 sf OR WIKRT_OTAG_DEEPSUM
         in case wikrt_alloc_cellval prims (c, cx) Caller WIKRT_O otag v of (ok, c', cx') \<Rightarrow>
              if \<not> ok then (WIKRT_CXFULL, c', cx') else (WIKRT_OK, c', cx')))"

text \<open>The result is the error code, the outputs \<open>inRight\<close> and \<open>v\<close>, and the context.\<close>

definition wikrt_split_sum ::
  "fl_prims \<Rightarrow> wikrt_cx \<Rightarrow> wikrt_val \<Rightarrow> wikrt_err \<times> bool \<times> wikrt_val \<times> wikrt_cx" where
  "wikrt_split_sum prims cx c =
     (let tag = wikrt_vtag c; addr = wikrt_vaddr c in
      if WIKRT_PL = tag then (WIKRT_OK, False, wikrt_tag_addr WIKRT_P addr, cx)
      else if WIKRT_PR = tag then (WIKRT_OK, True, wikrt_tag_addr WIKRT_P addr, cx)
      else if WIKRT_O = tag \<and> wikrt_otag_deepsum (pval_get cx addr 0) then
        (let otag = pval_get cx addr 0;
             s0 = drop_bit 8 otag;
             inRight = (3 = 3 AND s0);
             sf = drop_bit 2 s0
         in if 0 = sf then
              (WIKRT_OK, inRight, pval_get cx addr 1, wikrt_free prims cx WIKRT_CELLSIZE addr)
            else
              (WIKRT_OK, inRight, c, pval_set cx addr 0 (push_bit 8 sf OR WIKRT_OTAG_DEEPSUM)))
      else if WIKRT_O = tag \<and> wikrt_otag_array (pval_get cx addr 0) then
        (WIKRT_IMPL, False, WIKRT_VOID, cx)
      else (WIKRT_TYPE_ERROR, False, WIKRT_VOID, cx))"

section \<open>Sealed values (wikrt.c)\<close>

text \<open>
  The conversion \<open>(wikrt_val)s[N]\<close> of a plain \<open>char\<close>. Whether plain \<open>char\<close> is signed
  is fixed by the platform (it is signed on x86 and x86-64 Linux); a signed \<open>char\<close> is
  sign-extended by the conversion.
\<close>

definition char_to_val :: "bool \<Rightarrow> 8 word \<Rightarrow> wikrt_val" where
  "char_to_val char_signed ch = (if char_signed then scast ch else ucast ch)"

text \<open>\<open>TAG(N) = ((len > N) ? (((wikrt_val)s[N]) << (8*N)) : 0)\<close>\<close>

definition seal_TAG :: "bool \<Rightarrow> 8 word list \<Rightarrow> nat \<Rightarrow> wikrt_val" where
  "seal_TAG char_signed s N =
     (if length s > N then push_bit (8 * N) (char_to_val char_signed (s ! N)) else 0)"

text \<open>The token is the byte string \<open>s\<close> of length \<open>len = length s\<close>.\<close>

definition wikrt_alloc_seal ::
  "fl_prims \<Rightarrow> bool \<Rightarrow> wikrt_cx \<Rightarrow> wikrt_val \<Rightarrow> 8 word list \<Rightarrow> wikrt_val \<Rightarrow>
     wikrt_err \<times> wikrt_val \<times> wikrt_cx" where
  "wikrt_alloc_seal prims char_signed cx sv s v =
     (let len = length s; validLen = (0 < len \<and> len < 64) in
      if \<not> validLen then (WIKRT_INVAL, WIKRT_VOID, cx)
      else if 0x3A = s ! 0 \<and> len \<le> 4 then
        (let tag = seal_TAG char_signed s 3 OR seal_TAG char_signed s 2 OR
                   seal_TAG char_signed s 1 OR WIKRT_OTAG_SEAL_SM
         in case wikrt_alloc_cellval prims (sv, cx) Caller WIKRT_O tag v of (ok, sv', cx') \<Rightarrow>
              if \<not> ok then (WIKRT_CXFULL, sv', cx') else (WIKRT_OK, sv', cx'))
      else
        (let szTotal = WIKRT_CELLSIZE + of_nat len in
         case wikrt_alloc prims cx szTotal of (ok, dst, cx1) \<Rightarrow>
           if \<not> ok then (WIKRT_CXFULL, WIKRT_VOID, cx1)
           else
             (let cx2 = pval_set cx1 dst 0 (push_bit 8 (of_nat len) OR WIKRT_OTAG_SEAL);
                  cx3 = pval_set cx2 dst 1 v;
                  cx4 = cx3\<lparr> memory := store_bytes (memory cx3) (dst + 8) s \<rparr>
              in (WIKRT_OK, wikrt_tag_addr WIKRT_O dst, cx4))))"

text \<open>
  The result is the error code, the bytes written to \<open>buff\<close> from its start (the
  terminating zero included), the output \<open>v\<close> and the context.
\<close>

definition wikrt_split_seal ::
  "fl_prims \<Rightarrow> wikrt_cx \<Rightarrow> wikrt_val \<Rightarrow> wikrt_err \<times> 8 word list \<times> wikrt_val \<times> wikrt_cx" where
  "wikrt_split_seal prims cx sv =
     (let addr = wikrt_vaddr sv; tag = wikrt_vtag sv in
      if WIKRT_O \<noteq> tag \<or> 0 = addr then (WIKRT_TYPE_ERROR, [0], WIKRT_VOID, cx)
      else if wikrt_otag_seal_sm (pval_get cx addr 0) then
        (let otag = pval_get cx addr 0;
             buff = [0x3A, ucast (drop_bit 8 otag AND 0xFF), ucast (drop_bit 16 otag AND 0xFF),
                     ucast (drop_bit 24 otag AND 0xFF), 0]
         in (WIKRT_OK, buff, pval_get cx addr 1, wikrt_free prims cx WIKRT_CELLSIZE addr))
      else if wikrt_otag_seal (pval_get cx addr 0) then
        (let len = drop_bit 8 (pval_get cx addr 0) AND 0x3F;
             allocSz = WIKRT_CELLSIZE + len;
             buff = load_bytes (memory cx) (addr + 8) (unat len) @ [0]
         in (WIKRT_OK, buff, pval_get cx addr 1, wikrt_free prims cx allocSz addr))
      else (WIKRT_TYPE_ERROR, [0], WIKRT_VOID, cx))"

text \<open>The C string held by a buffer: the bytes before the first zero.\<close>

definition c_string :: "8 word list \<Rightarrow> 8 word list" where
  "c_string buff = takeWhile (\<lambda>b. b \<noteq> 0) buff"

section \<open>Token and text characters (wikrt.h)\<close>

text \<open>
  Modelled from the spec: \<open>isControlChar\<close> and \<open>isReplacementChar\<close> of utf8.h, which is
  not among the sources. The control characters are U+0000..U+001F and U+007F, the
  replacement character is U+FFFD.
\<close>

definition isControlChar :: "32 word \<Rightarrow> bool" where
  "isControlChar c \<longleftrightarrow> c \<le> 0x1F \<or> c = 0x7F"

definition isReplacementChar :: "32 word \<Rightarrow> bool" where
  "isReplacementChar c \<longleftrightarrow> c = 0xFFFD"


definition wikrt_text_char :: "32 word \<Rightarrow> bool" where
  "wikrt_text_char c =
     (let bInvalidChar = ((isControlChar c \<and> c \<noteq> 10) \<or> isReplacementChar c)
      in \<not> bInvalidChar)"

section \<open>Texts (wikrt.c)\<close>

text \<open>
  Modelled from the spec: \<open>utf8_step\<close> of utf8.h, which is not among the sources. It
  reads one UTF-8 encoded codepoint from the front of the remaining input, advances
  past it and returns true; it returns false when the remaining bytes do not begin with
  a complete sequence (a partial sequence at the size limit, a stray or missing
  continuation byte). The input \<open>(s, len)\<close> is the list of the \<open>len\<close> bytes at \<open>s\<close>.
\<close>

definition utf8_cont :: "8 word \<Rightarrow> bool" where
  "utf8_cont b \<longleftrightarrow> b AND 0xC0 = 0x80"

definition utf8_bits :: "8 word \<Rightarrow> 8 word \<Rightarrow> 32 word" where
  "utf8_bits msk b = ucast (b AND msk)"

fun utf8_step :: "8 word list \<Rightarrow> (32 word \<times> 8 word list) option" where
  "utf8_step [] = None"
| "utf8_step (b0 # bs) =
     (if b0 < 0x80 then Some (ucast b0, bs)
      else if b0 AND 0xE0 = 0xC0 then
        (case bs of
           b1 # r \<Rightarrow>
             if utf8_cont b1
             then Some (push_bit 6 (utf8_bits 0x1F b0) OR utf8_bits 0x3F b1, r)
             else None
         | _ \<Rightarrow> None)
      else if b0 AND 0xF0 = 0xE0 then
        (case bs of
           b1 # b2 # r \<Rightarrow>
             if utf8_cont b1 \<and> utf8_cont b2
             then Some (push_bit 12 (utf8_bits 0x0F b0) OR push_bit 6 (utf8_bits 0x3F b1) OR
                        utf8_bits 0x3F b2, r)
             else None
         | _ \<Rightarrow> None)
      else if b0 AND 0xF8 = 0xF0 then
        (case bs of
           b1 # b2 # b3 # r \<Rightarrow>
             if utf8_cont b1 \<and> utf8_cont b2 \<and> utf8_cont b3
             then Some (push_bit 18 (utf8_bits 0x07 b0) OR push_bit 12 (utf8_bits 0x3F b1) OR
                        push_bit 6 (utf8_bits 0x3F b2) OR utf8_bits 0x3F b3, r)
             else None
         | _ \<Rightarrow> None)
      else None)"

text \<open>
  The loop of \<open>_wikrt_alloc_text\<close>: \<open>tlp\<close> is the pointer \<open>tl\<close> at which the next list cell is
  linked, \<open>txt\<close> the caller's variable, \<open>s\<close> the input not yet read.
\<close>

function wikrt_alloc_text_loop ::
  "fl_prims \<Rightarrow> wikrt_val \<times> wikrt_cx \<Rightarrow> val_ptr \<Rightarrow> 8 word list \<Rightarrow> wikrt_err \<times> wikrt_val \<times> wikrt_cx"
  where
  "wikrt_alloc_text_loop prims xcx tlp s =
     (if s = [] then (WIKRT_OK, ptr_set tlp WIKRT_UNIT_INR xcx)
      else
        case utf8_step s of
          None \<Rightarrow> (WIKRT_OK, ptr_set tlp WIKRT_UNIT_INR xcx)
        | Some (cp, s') \<Rightarrow>
            if \<not> wikrt_text_char cp then (WIKRT_INVAL, xcx)
            else
              (case wikrt_alloc_cellval prims xcx tlp WIKRT_PL (wikrt_i2v cp) WIKRT_VOID of
                 (ok, x1, cx1) \<Rightarrow>
                   if \<not> ok then (WIKRT_CXFULL, x1, cx1)
                   else
                     wikrt_alloc_text_loop prims (x1, cx1)
                       (Arena (wikrt_vaddr (ptr_get tlp (x1, cx1)) + 4)) s'))"
  by pat_completeness auto
termination
proof (relation "measure (\<lambda>(prims, xcx, tlp, s). length s)")
  fix s :: "8 word list" and x2 cp s'
  assume "utf8_step s = Some x2" and "(cp, s') = x2"
  then have "utf8_step s = Some (cp, s')" by simp
  then have "length s' < length s"
    by (cases s) (auto split: if_splits list.splits)
  then show "((prims, (x1, cx1), Arena (wikrt_vaddr (ptr_get tlp (x1, cx1)) + 4), s'), (prims, xcx, tlp, s))
      \<in> measure (\<lambda>(prims, xcx, tlp, s). length s)"
    for prims :: fl_prims and x1 cx1 tlp xcx
    by simp
qed simp

definition wikrt_alloc_text ::
  "fl_prims \<Rightarrow> wikrt_cx \<Rightarrow> wikrt_val \<Rightarrow> 8 word list \<Rightarrow> wikrt_err \<times> wikrt_val \<times> wikrt_cx" where
  "wikrt_alloc_text prims cx txt cstr =
     wikrt_alloc_text_loop prims (WIKRT_VOID, cx) Caller cstr"

text \<open>
  The inputs in which the loop meets a codepoint that is not a text character: one
  stands before the end of the input and before any bytes that \<open>utf8_step\<close> cannot read.
\<close>

function reads_forbidden :: "8 word list \<Rightarrow> bool" where
  "reads_forbidden s =
     (case utf8_step s of
        None \<Rightarrow> False
      | Some (cp, s') \<Rightarrow> if wikrt_text_char cp then reads_forbidden s' else True)"
  by pat_completeness auto
termination
proof (relation "measure length")
  fix s :: "8 word list" and x2 cp s'
  assume "utf8_step s = Some x2" and "(cp, s') = x2"
  then have "utf8_step s = Some (cp, s')" by simp
  then have "length s' < length s"
    by (cases s) (auto split: if_splits list.splits)
  then show "(s', s) \<in> measure length" by simp
qed simp

section \<open>Deep copy (wikrt.c)\<close>










section \<open>Deep drop (wikrt.c)\<close>




section \<open>Assumptions on the free-list primitives\<close>

text \<open>
  Blocks handed out by \<open>wikrt_fl_alloc\<close> are cell aligned and never at offset zero
  (offset zero is reserved for unit, the unit sums and void).
\<close>

definition fl_aligned :: "fl_prims \<Rightarrow> bool" where
  "fl_aligned prims \<longleftrightarrow>
     (\<forall>m f sz a m' f'. wikrt_fl_alloc prims m f sz = (True, a, m', f') \<longrightarrow> a AND 7 = 0 \<and> a \<noteq> 0)"

section \<open>The integer a value stands for\<close>

text \<open>
  The number held by a sign and three base-\<open>10\<^sup>9\<close> digits, little-endian, as
  \<open>wikrt_peek_medint\<close> returns them.
\<close>

definition medint_val :: "bool \<Rightarrow> 32 word \<Rightarrow> 32 word \<Rightarrow> 32 word \<Rightarrow> int" where
  "medint_val pos d0 d1 d2 =
     (if pos then 1 else - 1) * (uint d0 + uint d1 * 1000000000 + uint d2 * 1000000000000000000)"

text \<open>
  A big integer object: a \<open>WIKRT_O\<close> reference away from offset zero whose first word
  carries the \<open>WIKRT_OTAG_BIGINT\<close> tag. Its digit count is the tag shifted right by nine,
  its sign is bit eight, and its digits follow the tag word.
\<close>

definition is_bigint :: "wikrt_cx \<Rightarrow> wikrt_val \<Rightarrow> bool" where
  "is_bigint cx v \<longleftrightarrow>
     \<not> wikrt_i v \<and> wikrt_vtag v = WIKRT_O \<and> wikrt_vaddr v \<noteq> 0 \<and>
     wikrt_otag_bigint (pval_get cx (wikrt_vaddr v) 0)"

definition bigint_positive :: "wikrt_cx \<Rightarrow> wikrt_val \<Rightarrow> bool" where
  "bigint_positive cx v \<longleftrightarrow> \<not> bit (pval_get cx (wikrt_vaddr v) 0) 8"

definition bigint_digits :: "wikrt_cx \<Rightarrow> wikrt_val \<Rightarrow> int list" where
  "bigint_digits cx v =
     map (\<lambda>k. uint (pval_get cx (wikrt_vaddr v) (Suc k)))
       [0 ..< unat (drop_bit 9 (pval_get cx (wikrt_vaddr v) 0))]"

primrec digits_val :: "int list \<Rightarrow> int" where
  "digits_val [] = 0"
| "digits_val (d # ds) = d + 1000000000 * digits_val ds"

text \<open>Size is at least two digits, each digit is in \<open>0..999999999\<close>, and the top digit
  is not zero.\<close>

definition bigint_wf :: "wikrt_cx \<Rightarrow> wikrt_val \<Rightarrow> bool" where
  "bigint_wf cx v \<longleftrightarrow>
     2 \<le> length (bigint_digits cx v) \<and>
     list_all (\<lambda>d. d < 1000000000) (bigint_digits cx v) \<and>
     last (bigint_digits cx v) \<noteq> 0"

definition wikrt_int_value :: "wikrt_cx \<Rightarrow> wikrt_val \<Rightarrow> int option" where
  "wikrt_int_value cx v =
     (if wikrt_i v then Some (sint (wikrt_v2i v))
      else if is_bigint cx v then
        Some ((if bigint_positive cx v then 1 else - 1) * digits_val (bigint_digits cx v))
      else None)"

section \<open>Integer division\<close>

text \<open>
  Modelled from the spec: \<open>wikrt_int_div\<close>, of which the sources hold only the test
  \<open>test_div\<close>. Division yields quotient and remainder by floor division, and division
  by zero fails with \<open>WIKRT_TYPE_ERROR\<close>.
\<close>

definition int_div :: "int \<Rightarrow> int \<Rightarrow> wikrt_err + int \<times> int" where
  "int_div dividend divisor =
     (if divisor = 0 then Inl WIKRT_TYPE_ERROR
      else Inr (dividend div divisor, dividend mod divisor))"

section \<open>A concrete context\<close>

text \<open>
  The simplest instance of the free-list primitives: the free space is one run of
  \<open>free_bytes\<close> bytes that starts at the head of the first size class, allocation takes
  from its front, and freed blocks are not reused.
\<close>

definition run_alloc :: "memory \<Rightarrow> wikrt_fl \<Rightarrow> wikrt_sizeb \<Rightarrow> bool \<times> wikrt_addr \<times> memory \<times> wikrt_fl" where
  "run_alloc m f sz =
     (case size_class f of
        [] \<Rightarrow> (False, 0, m, f)
      | c # cs \<Rightarrow>
          if head c AND 7 = 0 \<and> head c \<noteq> 0 \<and> sz \<le> free_bytes f then
            (True, head c, m,
             f\<lparr> free_bytes := free_bytes f - sz, size_class := c\<lparr> head := head c + sz \<rparr> # cs \<rparr>)
          else (False, 0, m, f))"

definition run_prims :: fl_prims where
  "run_prims =
     \<lparr> wikrt_fl_alloc = run_alloc,
       wikrt_fl_free = (\<lambda>m f sz a. (m, f)),
       wikrt_fl_coalesce = (\<lambda>m f. (m, f)),
       wikrt_fl_merge = (\<lambda>m src dst. (m, src, dst)) \<rparr>"

definition run_cx :: wikrt_cx where
  "run_cx =
     \<lparr> memory = (\<lambda>a. 0),
       fl = \<lparr> free_bytes = 4096, frag_count = 1, size_class = [\<lparr> head = 8, tail = 8 \<rparr>] \<rparr>,
       cxm_fl = wikrt_fl_zero,
       ct_bytes_freed = 0,
       ct_bytes_alloc = 0 \<rparr>"

text \<open>The context after \<open>10\<^sup>1\<^sup>9\<close> (three digits \<open>0, 0, 10\<close>) has been allocated in \<open>run_cx\<close>.\<close>

definition big_cx :: wikrt_cx where
  "big_cx = snd (snd (wikrt_alloc_medint run_prims run_cx True 0 0 10))"



text \<open>The context after unit has been sealed in \<open>run_cx\<close> with the three-byte token
  \<open>3A C3 A9\<close> (a colon and U+00E9), plain \<open>char\<close> being signed.\<close>

definition seal_cx :: wikrt_cx where
  "seal_cx = snd (snd (wikrt_alloc_seal run_prims True run_cx 0 [0x3A, 0xC3, 0xA9] WIKRT_UNIT))"





section \<open>Successive wraps and unwraps\<close>

text \<open>
  The loops of \<open>deepsum_path\<close> and \<open>dismantle_deepsum_path\<close> (testSuite.c) over
  \<open>_wikrt_alloc_sum\<close> and \<open>_wikrt_split_sum\<close>: one wrap for each direction of the list,
  the value of each call being the result of the one before, and \<open>n\<close> unwraps that
  collect the directions found. Both stop at the first call that fails.
\<close>

fun wrap_sums ::
  "fl_prims \<Rightarrow> bool list \<Rightarrow> wikrt_val \<times> wikrt_cx \<Rightarrow> wikrt_err \<times> wikrt_val \<times> wikrt_cx" where
  "wrap_sums prims [] (v, cx) = (WIKRT_OK, v, cx)"
| "wrap_sums prims (t # ts) (v, cx) =
     (case wikrt_alloc_sum prims cx v t v of
        (st, c, cx') \<Rightarrow> if st = WIKRT_OK then wrap_sums prims ts (c, cx') else (st, c, cx'))"

fun unwrap_sums ::
  "fl_prims \<Rightarrow> nat \<Rightarrow> wikrt_val \<times> wikrt_cx \<Rightarrow> wikrt_err \<times> bool list \<times> wikrt_val \<times> wikrt_cx" where
  "unwrap_sums prims 0 (c, cx) = (WIKRT_OK, [], c, cx)"
| "unwrap_sums prims (Suc n) (c, cx) =
     (case wikrt_split_sum prims cx c of
        (st, t, v, cx') \<Rightarrow>
          if st = WIKRT_OK then
            (case unwrap_sums prims n (v, cx') of (st', ts, v', cx'') \<Rightarrow> (st', t # ts, v', cx''))
          else (st, [], v, cx'))"

text \<open>The direction bits of a deep-sum tag after \<open>k\<close> left wraps, two bits for each.\<close>

fun dirs_L :: "nat \<Rightarrow> wikrt_val" where
  "dirs_L 0 = 0"
| "dirs_L (Suc k) = push_bit 2 (dirs_L k) OR WIKRT_DEEPSUML"

section \<open>Assumptions on the memory handed out\<close>

text \<open>
  The bytes of a block of \<open>n\<close> bytes at \<open>a\<close>, and the contract of an allocator built on
  the free-list primitives. \<open>I\<close> is the invariant the free lists keep and \<open>F cx\<close> the set
  of free bytes of a context: a block handed out by \<open>wikrt_alloc\<close> is taken from the
  free bytes, allocating and freeing write to free bytes only (freeing also to the
  block given back), and neither \<open>I\<close> nor \<open>F\<close> depends on the bytes in use.
\<close>

definition block :: "wikrt_addr \<Rightarrow> wikrt_size \<Rightarrow> wikrt_addr set" where
  "block a n = (\<lambda>k. a + of_nat k) ` {..<unat n}"

definition heap_ok :: "fl_prims \<Rightarrow> (wikrt_cx \<Rightarrow> bool) \<Rightarrow> (wikrt_cx \<Rightarrow> wikrt_addr set) \<Rightarrow> bool" where
  "heap_ok prims I F \<longleftrightarrow>
     (\<forall>cx sz a cx'. I cx \<and> wikrt_alloc prims cx sz = (True, a, cx') \<longrightarrow>
        I cx' \<and> block a (WIKRT_CELLBUFF sz) \<subseteq> F cx \<and>
        F cx' \<subseteq> F cx - block a (WIKRT_CELLBUFF sz) \<and>
        (\<forall>x. x \<notin> F cx \<longrightarrow> memory cx' x = memory cx x)) \<and>
     (\<forall>cx sz a x. I cx \<and> x \<notin> F cx \<and> x \<notin> block a (WIKRT_CELLBUFF sz) \<longrightarrow>
        memory (wikrt_free prims cx sz a) x = memory cx x) \<and>
     (\<forall>cx m. I cx \<and> (\<forall>x\<in>F cx. m x = memory cx x) \<longrightarrow>
        I (cx\<lparr> memory := m \<rparr>) \<and> F (cx\<lparr> memory := m \<rparr>) = F cx)"

text \<open>The free bytes of a context under \<open>run_prims\<close>: the run at the head of the first
  size class.\<close>

definition run_free :: "wikrt_cx \<Rightarrow> wikrt_addr set" where
  "run_free cx =
     (case size_class (fl cx) of [] \<Rightarrow> {} | c # cs \<Rightarrow> block (head c) (free_bytes (fl cx)))"

section \<open>Memory lemmas\<close>

lemma load32_store32_same: "load32 (store32 m a w) a = w"
  unfolding load32_def store32_def
  apply (simp)
  apply (rule bit_word_eqI)
  apply (auto simp add: bit_simps)
  apply (rule ccontr)
  apply (simp add: not_less)
  done

lemma load32_store32_other:
  "a - b \<notin> {0, 1, 2, 3, -1, -2, -3} \<Longrightarrow> load32 (store32 m b w) a = load32 m a"
proof -
  assume h: "a - b \<notin> {0, 1, 2, 3, -1, -2, -3}"
  have ne: "\<And>i j. i \<in> {0,1,2,3::32 word} \<Longrightarrow> j \<in> {0,1,2,3::32 word} \<Longrightarrow> a + i \<noteq> b + j"
  proof
    fix i j :: "32 word" assume i: "i \<in> {0,1,2,3}" and j: "j \<in> {0,1,2,3}" and e: "a + i = b + j"
    from e have "a - b = j - i" by (simp add: algebra_simps)
    with i j h show False by auto
  qed
  have "\<And>i. i \<in> {0,1,2,3::32 word} \<Longrightarrow> store32 m b w (a + i) = m (a + i)"
    using ne[of _ 0] ne[of _ 1] ne[of _ 2] ne[of _ 3] by (simp add: store32_def)
  from this[of 0] this[of 1] this[of 2] this[of 3] show ?thesis
    by (simp add: load32_def)
qed

section \<open>Tagged addresses and the allocator\<close>

lemma tag_of_tagged:
  fixes a :: "32 word"
  assumes "a AND 7 = 0" and "t AND 7 = t"
  shows "wikrt_vtag (wikrt_tag_addr t a) = t"
  using assms by (simp add: wikrt_vtag_def wikrt_tag_addr_def WIKRT_MASK_TAG_def bit.conj_disj_distrib2)

lemma and_not7:
  fixes a :: "32 word"
  assumes "a AND 7 = 0" shows "a AND NOT 7 = a"
proof -
  have "a = (a AND 7) OR (a AND NOT 7)"
    by (metis bit.conj_disj_distrib bit.disj_cancel_right and.right_neutral)
  with assms show ?thesis by simp
qed

lemma addr_of_tagged:
  fixes a :: "32 word"
  assumes "a AND 7 = 0" and "t AND 7 = t"
  shows "wikrt_vaddr (wikrt_tag_addr t a) = a"
proof -
  have "t AND NOT 7 = 0" using assms(2)
    by (metis and.assoc bit.conj_cancel_right and_zero_eq)
  then show ?thesis using and_not7[OF assms(1)]
  by (simp add: wikrt_vaddr_def wikrt_tag_addr_def WIKRT_MASK_ADDR_def WIKRT_MASK_TAG_def bit.conj_disj_distrib2)
qed

lemma not_i_tagged:
  fixes a :: "32 word"
  assumes "a AND 7 = 0" and "t AND 1 = 1"
  shows "\<not> wikrt_i (wikrt_tag_addr t a)"
proof -
  have "a AND 1 = (a AND 7) AND 1" by (simp add: and.assoc)
  then have "a AND 1 = 0" using assms by simp
  then show ?thesis using assms
  by (simp add: wikrt_i_def wikrt_tag_addr_def bit.conj_disj_distrib2)
qed

lemma acquire_shm_ct:
  "wikrt_acquire_shm prims cx sz = (ok, cx') \<Longrightarrow> ct_bytes_alloc cx' = ct_bytes_alloc cx"
  by (auto simp: wikrt_acquire_shm_def split: prod.splits if_splits)

lemma acquire_shared_memory_ct:
  "ct_bytes_alloc (wikrt_acquire_shared_memory prims cx sz) = ct_bytes_alloc cx"
  by (auto simp: wikrt_acquire_shared_memory_def Let_def dest!: acquire_shm_ct split: prod.splits if_splits)

lemma alloc_local_True:
  assumes "wikrt_alloc_local prims cx sz = (True, a, cx')" and "fl_aligned prims"
  shows "a AND 7 = 0 \<and> a \<noteq> 0 \<and> ct_bytes_alloc cx' = ct_bytes_alloc cx + ucast sz"
proof -
  obtain ok a0 m' f' where r: "wikrt_fl_alloc prims (memory cx) (fl cx) sz = (ok, a0, m', f')"
    by (cases "wikrt_fl_alloc prims (memory cx) (fl cx) sz") auto
  with assms(1) have ok: "ok" and a0: "a0 = a"
    and cx': "cx' = cx\<lparr> memory := m', fl := f', ct_bytes_alloc := ct_bytes_alloc cx + ucast sz \<rparr>"
    by (auto simp: wikrt_alloc_local_def split: if_splits)
  from r ok a0 have "wikrt_fl_alloc prims (memory cx) (fl cx) sz = (True, a, m', f')" by simp
  with assms(2) have "a AND 7 = 0 \<and> a \<noteq> 0"
    unfolding fl_aligned_def by blast
  with cx' show ?thesis by simp
qed

lemma alloc_local_False:
  assumes "wikrt_alloc_local prims cx sz = (False, a, cx')"
  shows "ct_bytes_alloc cx' = ct_bytes_alloc cx"
  using assms
  by (auto simp: wikrt_alloc_local_def split: prod.splits if_splits)

lemma wikrt_alloc_True:
  assumes "wikrt_alloc prims cx sz = (True, a, cx')" and "fl_aligned prims"
  shows "a AND 7 = 0 \<and> a \<noteq> 0 \<and> ct_bytes_alloc cx' = ct_bytes_alloc cx + ucast (WIKRT_CELLBUFF sz)"
proof (cases "wikrt_alloc_local prims cx (WIKRT_CELLBUFF sz)")
  case (fields ok a1 cx1)
  show ?thesis
  proof (cases ok)
    case True
    with fields assms(1) have "a1 = a" "cx1 = cx'" by (simp_all add: wikrt_alloc_def)
    with fields True have "wikrt_alloc_local prims cx (WIKRT_CELLBUFF sz) = (True, a, cx')" by simp
    from alloc_local_True[OF this assms(2)] show ?thesis .
  next
    case False
    with fields assms(1) have r: "wikrt_alloc_local prims
        (wikrt_acquire_shared_memory prims cx1 (WIKRT_PAGEBUFF (WIKRT_CELLBUFF sz))) (WIKRT_CELLBUFF sz) = (True, a, cx')"
      by (simp add: wikrt_alloc_def Let_def)
    from fields False have "wikrt_alloc_local prims cx (WIKRT_CELLBUFF sz) = (False, a1, cx1)" by simp
    then have "ct_bytes_alloc cx1 = ct_bytes_alloc cx"
      by (rule alloc_local_False)
    with alloc_local_True[OF r assms(2)] show ?thesis
      by (simp add: acquire_shared_memory_ct)
  qed
qed


section \<open>Medium integers\<close>

lemma push8_and_255: "push_bit 8 (x :: 32 word) AND 255 = 0"
proof -
  have "(255 :: 32 word) = mask 8" by (simp add: mask_eq_exp_minus_1)
  moreover have "push_bit 8 x AND mask 8 = (0 :: 32 word)"
    by (rule bit_word_eqI) (auto simp add: bit_simps)
  ultimately show ?thesis by simp
qed

lemma otag_bigint_mk: "wikrt_otag_bigint (wikrt_mkotag_bigint p n)"
  by (simp add: wikrt_otag_bigint_def wikrt_mkotag_bigint_def LOBYTE_def WIKRT_OTAG_BIGINT_def
      bit.conj_disj_distrib2 push8_and_255)

lemma mk_nd2: "drop_bit 9 (wikrt_mkotag_bigint p 2) = 2"
  by (cases p) (simp_all add: wikrt_mkotag_bigint_def WIKRT_OTAG_BIGINT_def)
lemma mk_nd3: "drop_bit 9 (wikrt_mkotag_bigint p 3) = 3"
  by (cases p) (simp_all add: wikrt_mkotag_bigint_def WIKRT_OTAG_BIGINT_def)
lemma mk_pos2: "(256 AND wikrt_mkotag_bigint p 2 = 0) = p"
  by (cases p) (simp_all add: wikrt_mkotag_bigint_def WIKRT_OTAG_BIGINT_def)
lemma mk_pos3: "(256 AND wikrt_mkotag_bigint p 3 = 0) = p"
  by (cases p) (simp_all add: wikrt_mkotag_bigint_def WIKRT_OTAG_BIGINT_def)

lemma cellbuff_12: "WIKRT_CELLBUFF 12 = 16" "WIKRT_CELLBUFF 16 = 16" "WIKRT_CELLBUFF 8 = 8"
  by (simp_all add: WIKRT_CELLBUFF_def WIKRT_LNBUFF_POW2_def WIKRT_CELLSIZE_def)

lemma peek_alloc_medint:
  assumes al: "fl_aligned prims"
    and r: "wikrt_alloc_medint prims cx pos d0 d1 d2 = (WIKRT_OK, vo, cx')"
  shows "\<exists>v. vo = Some v \<and> \<not> wikrt_i v \<and> wikrt_peek_medint cx' v = (WIKRT_OK, pos, d0, d1, d2) \<and>
     ct_bytes_alloc cx' = ct_bytes_alloc cx + 16"
proof (cases "d2 = 0")
  case True
  obtain ok a cx1 where A: "wikrt_alloc prims cx 12 = (ok, a, cx1)"
    by (cases "wikrt_alloc prims cx 12") auto
  with r True have ok: ok by (auto simp: wikrt_alloc_medint_def Let_def split: if_splits)
  with A have A': "wikrt_alloc prims cx 12 = (True, a, cx1)" by simp
  from wikrt_alloc_True[OF A' al] have a: "a AND 7 = 0" "a \<noteq> 0"
    and ct: "ct_bytes_alloc cx1 = ct_bytes_alloc cx + 16" by (simp_all add: cellbuff_12)
  from r True A' have vo: "vo = Some (wikrt_tag_addr WIKRT_O a)"
    and cx': "cx' = pval_set (pval_set (pval_set cx1 a 0 (wikrt_mkotag_bigint pos 2)) a 1 d0) a 2 d1"
    by (simp_all add: wikrt_alloc_medint_def Let_def)
  have t: "wikrt_vtag (wikrt_tag_addr WIKRT_O a) = WIKRT_O"
    by (rule tag_of_tagged[OF a(1)]) (simp add: WIKRT_O_def)
  have ad: "wikrt_vaddr (wikrt_tag_addr WIKRT_O a) = a"
    by (rule addr_of_tagged[OF a(1)]) (simp add: WIKRT_O_def)
  have ni: "\<not> wikrt_i (wikrt_tag_addr WIKRT_O a)"
    by (rule not_i_tagged[OF a(1)]) (simp add: WIKRT_O_def)
  have g0: "pval_get cx' a 0 = wikrt_mkotag_bigint pos 2"
    and g1: "pval_get cx' a (Suc 0) = d0" and g2: "pval_get cx' a 2 = d1"
    by (simp_all add: cx' pval_get_def pval_set_def load32_store32_same load32_store32_other)
  have ct': "ct_bytes_alloc cx' = ct_bytes_alloc cx + 16" by (simp add: cx' pval_set_def ct)
  show ?thesis
    using a(2) True
    by (simp add: vo ni wikrt_peek_medint_def t ad g0 g1 g2 Let_def otag_bigint_mk mk_nd2 mk_pos2 ct')
next
  case False
  obtain ok a cx1 where A: "wikrt_alloc prims cx 16 = (ok, a, cx1)"
    by (cases "wikrt_alloc prims cx 16") auto
  with r False have ok: ok by (auto simp: wikrt_alloc_medint_def Let_def split: if_splits)
  with A have A': "wikrt_alloc prims cx 16 = (True, a, cx1)" by simp
  from wikrt_alloc_True[OF A' al] have a: "a AND 7 = 0" "a \<noteq> 0"
    and ct: "ct_bytes_alloc cx1 = ct_bytes_alloc cx + 16" by (simp_all add: cellbuff_12)
  from r False A' have vo: "vo = Some (wikrt_tag_addr WIKRT_O a)"
    and cx': "cx' = pval_set (pval_set (pval_set (pval_set cx1 a 0 (wikrt_mkotag_bigint pos 3)) a 1 d0) a 2 d1) a 3 d2"
    by (simp_all add: wikrt_alloc_medint_def Let_def)
  have t: "wikrt_vtag (wikrt_tag_addr WIKRT_O a) = WIKRT_O"
    by (rule tag_of_tagged[OF a(1)]) (simp add: WIKRT_O_def)
  have ad: "wikrt_vaddr (wikrt_tag_addr WIKRT_O a) = a"
    by (rule addr_of_tagged[OF a(1)]) (simp add: WIKRT_O_def)
  have ni: "\<not> wikrt_i (wikrt_tag_addr WIKRT_O a)"
    by (rule not_i_tagged[OF a(1)]) (simp add: WIKRT_O_def)
  have g0: "pval_get cx' a 0 = wikrt_mkotag_bigint pos 3"
    and g1: "pval_get cx' a (Suc 0) = d0" and g2: "pval_get cx' a 2 = d1" and g3: "pval_get cx' a 3 = d2"
    by (simp_all add: cx' pval_get_def pval_set_def load32_store32_same load32_store32_other)
  have ct': "ct_bytes_alloc cx' = ct_bytes_alloc cx + 16" by (simp add: cx' pval_set_def ct)
  show ?thesis
    using a(2) False
    by (simp add: vo ni wikrt_peek_medint_def t ad g0 g1 g2 g3 Let_def otag_bigint_mk mk_nd3 mk_pos3 ct')
qed


section \<open>Reading integers back\<close>

lemma uint32_bound: "uint (d :: 32 word) < 4294967296" "0 \<le> uint d"
  using uint_bounded[of d] by simp_all

lemma word32_gt_num: "((d :: 32 word) > word_of_int k) = (uint d > k)" if "0 \<le> k" "k < 2 ^ 32"
  using that by (simp add: word_less_alt uint_word_of_int_eq take_bit_int_eq_self)

lemma word32_eq_num: "((d :: 32 word) = word_of_int k) = (uint d = k)" if "0 \<le> k" "k < 2 ^ 32"
proof
  assume "d = word_of_int k"
  then show "uint d = k" using that by (simp add: uint_word_of_int_eq take_bit_int_eq_self)
next
  assume "uint d = k"
  then have "word_of_int (uint d) = (word_of_int k :: 32 word)" by simp
  then show "d = word_of_int k" by (simp only: word_of_int_uint)
qed

lemma wp32: "(d1 :: 32 word) * 1000000000 + d0 = word_of_int (uint d0 + uint d1 * 1000000000)"
  by (simp only: of_int_add of_int_mult word_of_int_uint of_int_numeral add.commute)

lemma wn32: "0 - (d1 :: 32 word) * 1000000000 - d0 = word_of_int (- (uint d0 + uint d1 * 1000000000))"
  by (simp only: of_int_add of_int_mult of_int_minus word_of_int_uint of_int_numeral) simp

lemma z2: "((d2 :: 32 word) \<noteq> 0) = (uint d2 > 0)"
  by (metis uint_0_iff uint_ge_0 order_less_le)

lemma medint_arith32_pos:
  fixes A B C :: int
  assumes "0 \<le> A" "A < 1000000000" "0 \<le> B" "B < 1000000000" "0 \<le> C"
  shows "(0 < C \<or> 2 < B \<or> (B = 2 \<and> 147483647 < A)) \<longleftrightarrow>
         \<not> (A + B * 1000000000 + C * 1000000000000000000 < 2147483648)"
  using assms by auto

lemma medint_arith32_neg:
  fixes A B C :: int
  assumes "0 \<le> A" "A < 1000000000" "0 \<le> B" "B < 1000000000" "0 \<le> C"
  shows "(0 < C \<or> 2 < B \<or> (B = 2 \<and> 147483648 < A)) \<longleftrightarrow>
         \<not> (A + B * 1000000000 + C * 1000000000000000000 \<le> 2147483648)"
  using assms by auto

lemma peek_i32_medint:
  assumes pm: "wikrt_peek_medint cx v = (WIKRT_OK, pos, d0, d1, d2)"
    and ni: "\<not> wikrt_i v"
    and d0: "uint d0 < 1000000000" and d1: "uint d1 < 1000000000"
  shows "wikrt_peek_i32 cx v =
     (let i = medint_val pos d0 d1 d2 in
      if - (2 ^ 31) \<le> i \<and> i < 2 ^ 31 then (WIKRT_OK, word_of_int i)
      else (WIKRT_BUFFSZ, if pos then INT32_MAX else INT32_MIN))"
proof -
  have c2: "(d1 > 2) = (uint d1 > 2)" using word32_gt_num[of 2 d1] by simp
  have e2: "(d1 = 2) = (uint d1 = 2)" using word32_eq_num[of 2 d1] by simp
  have c0p: "(d0 > 147483647) = (uint d0 > 147483647)" using word32_gt_num[of 147483647 d0] by simp
  have c0n: "(d0 > 147483648) = (uint d0 > 147483648)" using word32_gt_num[of 147483648 d0] by simp
  note b = d0 d1 uint32_bound(2)[of d0] uint32_bound(2)[of d1] uint32_bound(2)[of d2]
  note ap = medint_arith32_pos[OF uint32_bound(2)[of d0] d0 uint32_bound(2)[of d1] d1 uint32_bound(2)[of d2]]
  note an = medint_arith32_neg[OF uint32_bound(2)[of d0] d0 uint32_bound(2)[of d1] d1 uint32_bound(2)[of d2]]
  show ?thesis
  proof (cases pos)
    case True
    have r: "wikrt_peek_i32 cx v =
       (if uint d2 > 0 \<or> uint d1 > 2 \<or> (uint d1 = 2 \<and> uint d0 > 147483647) then (WIKRT_BUFFSZ, INT32_MAX)
        else (WIKRT_OK, word_of_int (uint d0 + uint d1 * 1000000000)))"
      unfolding wikrt_peek_i32_def using ni
      by (simp only: pm True Let_def c2 e2 z2 c0p wp32 if_False if_True prod.case simp_thms wikrt_err.simps)
    show ?thesis
    proof (cases "uint d2 > 0 \<or> uint d1 > 2 \<or> (uint d1 = 2 \<and> uint d0 > 147483647)")
      case T: True
      then have "\<not> medint_val pos d0 d1 d2 < 2 ^ 31" using ap by (simp add: medint_val_def \<open>pos\<close>)
      with T r show ?thesis by (simp add: Let_def \<open>pos\<close>)
    next
      case F: False
      then have lt: "uint d0 + uint d1 * 1000000000 + uint d2 * 1000000000000000000 < 2147483648"
        using ap by blast
      from F have z: "uint d2 = 0" using z2[of d2] by auto
      have ge: "- 2147483648 \<le> uint d0 + uint d1 * 1000000000"
        using uint32_bound(2)[of d0] uint32_bound(2)[of d1] by linarith
      from F r lt z ge show ?thesis by (simp add: Let_def medint_val_def \<open>pos\<close>)
    qed
  next
    case False
    have r: "wikrt_peek_i32 cx v =
       (if uint d2 > 0 \<or> uint d1 > 2 \<or> (uint d1 = 2 \<and> uint d0 > 147483648) then (WIKRT_BUFFSZ, INT32_MIN)
        else (WIKRT_OK, word_of_int (- (uint d0 + uint d1 * 1000000000))))"
      unfolding wikrt_peek_i32_def using ni
      by (simp only: pm False Let_def c2 e2 z2 c0n wn32 if_False if_True prod.case simp_thms wikrt_err.simps)
    show ?thesis
    proof (cases "uint d2 > 0 \<or> uint d1 > 2 \<or> (uint d1 = 2 \<and> uint d0 > 147483648)")
      case T: True
      then have "\<not> (uint d0 + uint d1 * 1000000000 + uint d2 * 1000000000000000000 \<le> 2147483648)"
        using an by blast
      then have "\<not> - (2 ^ 31) \<le> medint_val pos d0 d1 d2" by (simp add: medint_val_def \<open>\<not> pos\<close>)
      with T r show ?thesis by (simp add: Let_def \<open>\<not> pos\<close>)
    next
      case F: False
      then have le: "uint d0 + uint d1 * 1000000000 + uint d2 * 1000000000000000000 \<le> 2147483648"
        using an by blast
      from F have z: "uint d2 = 0" using z2[of d2] by auto
      have lt: "- (uint d0 + uint d1 * 1000000000) < 2147483648"
        using uint32_bound(2)[of d0] uint32_bound(2)[of d1] by linarith
      from F r le z lt show ?thesis by (simp add: Let_def medint_val_def \<open>\<not> pos\<close>)
    qed
  qed
qed


lemma w2_64: "ucast (d1 :: 32 word) * (1000000000 :: 64 word) + ucast (d0 :: 32 word) =
    word_of_int (uint d0 + uint d1 * 1000000000)"
  by (simp only: ucast_eq of_int_add of_int_mult of_int_numeral add.commute)

lemma w3p_64: "ucast (d2 :: 32 word) * ((1000000000 :: 64 word) * 1000000000) + ucast (d1 :: 32 word) * 1000000000 + ucast (d0 :: 32 word) =
    word_of_int (uint d0 + uint d1 * 1000000000 + uint d2 * 1000000000000000000)"
proof -
  have "(1000000000 :: 64 word) * 1000000000 = 1000000000000000000" by simp
  then show ?thesis
    by (simp only: ucast_eq of_int_add of_int_mult of_int_numeral) (simp add: add.assoc)
qed

lemma w3n_64: "0 - ucast (d2 :: 32 word) * ((1000000000 :: 64 word) * 1000000000) - ucast (d1 :: 32 word) * 1000000000 - ucast (d0 :: 32 word) =
    word_of_int (- (uint d0 + uint d1 * 1000000000 + uint d2 * 1000000000000000000))"
proof -
  have "(1000000000 :: 64 word) * 1000000000 = 1000000000000000000" by simp
  then show ?thesis
    by (simp only: ucast_eq of_int_add of_int_mult of_int_minus of_int_numeral) simp
qed

lemma medint_arith64_pos:
  fixes A B C :: int
  assumes "0 \<le> A" "A < 1000000000" "0 \<le> B" "B < 1000000000" "0 \<le> C"
  shows "(9 < C \<or> (C = 9 \<and> (223372036 < B \<or> (B = 223372036 \<and> 854775807 < A)))) \<longleftrightarrow>
         \<not> (A + B * 1000000000 + C * 1000000000000000000 < 9223372036854775808)"
  using assms by auto

lemma medint_arith64_neg:
  fixes A B C :: int
  assumes "0 \<le> A" "A < 1000000000" "0 \<le> B" "B < 1000000000" "0 \<le> C"
  shows "(9 < C \<or> (C = 9 \<and> (223372036 < B \<or> (B = 223372036 \<and> 854775808 < A)))) \<longleftrightarrow>
         \<not> (A + B * 1000000000 + C * 1000000000000000000 \<le> 9223372036854775808)"
  using assms by auto

lemma medint_two_digits:
  fixes A B :: int
  assumes "0 \<le> A" "A < 1000000000" "0 \<le> B" "B < 1000000000"
  shows "A + B * 1000000000 < 1000000000000000000" "0 \<le> A + B * 1000000000"
  using assms by auto

lemma peek_i64_medint:
  assumes pm: "wikrt_peek_medint cx v = (WIKRT_OK, pos, d0, d1, d2)"
    and ni: "\<not> wikrt_i v"
    and d0: "uint d0 < 1000000000" and d1: "uint d1 < 1000000000"
  shows "wikrt_peek_i64 cx v =
     (let i = medint_val pos d0 d1 d2 in
      if - (2 ^ 63) \<le> i \<and> i < 2 ^ 63 then (WIKRT_OK, word_of_int i)
      else (WIKRT_BUFFSZ, if pos then INT64_MAX else INT64_MIN))"
proof -
  have c2: "(d2 > 9) = (uint d2 > 9)" using word32_gt_num[of 9 d2] by simp
  have e2: "(d2 = 9) = (uint d2 = 9)" using word32_eq_num[of 9 d2] by simp
  have c1: "(d1 > 223372036) = (uint d1 > 223372036)" using word32_gt_num[of 223372036 d1] by simp
  have e1: "(d1 = 223372036) = (uint d1 = 223372036)" using word32_eq_num[of 223372036 d1] by simp
  have c0p: "(d0 > 854775807) = (uint d0 > 854775807)" using word32_gt_num[of 854775807 d0] by simp
  have c0n: "(d0 > 854775808) = (uint d0 > 854775808)" using word32_gt_num[of 854775808 d0] by simp
  have z: "(0 = d2) = (uint d2 = 0)" by (metis uint_0_iff)
  note ap = medint_arith64_pos[OF uint32_bound(2)[of d0] d0 uint32_bound(2)[of d1] d1 uint32_bound(2)[of d2]]
  note an = medint_arith64_neg[OF uint32_bound(2)[of d0] d0 uint32_bound(2)[of d1] d1 uint32_bound(2)[of d2]]
  note two = medint_two_digits[OF uint32_bound(2)[of d0] d0 uint32_bound(2)[of d1] d1]
  show ?thesis
  proof (cases "uint d2 = 0")
    case Z: True
    have r: "wikrt_peek_i64 cx v =
       (WIKRT_OK, if pos then word_of_int (uint d0 + uint d1 * 1000000000)
                  else - word_of_int (uint d0 + uint d1 * 1000000000))"
      unfolding wikrt_peek_i64_def using ni
      by (simp only: pm Let_def z Z w2_64 if_False if_True prod.case simp_thms wikrt_err.simps)
    have ge: "- 9223372036854775808 \<le> uint d0 + uint d1 * 1000000000"
      and lt: "uint d0 + uint d1 * 1000000000 < 9223372036854775808"
      and ge': "- 9223372036854775808 \<le> - (uint d0 + uint d1 * 1000000000)"
      and lt': "- (uint d0 + uint d1 * 1000000000) < 9223372036854775808"
      using two by linarith+
    show ?thesis
    proof (cases pos)
      case True
      with r Z ge lt show ?thesis by (simp add: Let_def medint_val_def)
    next
      case False
      with r Z ge' lt' show ?thesis by (simp add: Let_def medint_val_def)
    qed
  next
    case NZ: False
    show ?thesis
    proof (cases pos)
      case True
      have r: "wikrt_peek_i64 cx v =
         (if uint d2 > 9 \<or> (uint d2 = 9 \<and> (uint d1 > 223372036 \<or> (uint d1 = 223372036 \<and> uint d0 > 854775807)))
          then (WIKRT_BUFFSZ, INT64_MAX)
          else (WIKRT_OK, word_of_int (uint d0 + uint d1 * 1000000000 + uint d2 * 1000000000000000000)))"
        unfolding wikrt_peek_i64_def using ni
        by (simp only: pm True Let_def z NZ c2 e2 c1 e1 c0p w3p_64 if_False if_True prod.case simp_thms wikrt_err.simps)
      have ge: "- 9223372036854775808 \<le> uint d0 + uint d1 * 1000000000 + uint d2 * 1000000000000000000"
        using two(2) uint32_bound(2)[of d2] by linarith
      show ?thesis
      proof (cases "uint d2 > 9 \<or> (uint d2 = 9 \<and> (uint d1 > 223372036 \<or> (uint d1 = 223372036 \<and> uint d0 > 854775807)))")
        case T: True
        then have "\<not> medint_val pos d0 d1 d2 < 2 ^ 63" using ap by (simp add: medint_val_def \<open>pos\<close>)
        with T r show ?thesis by (simp add: Let_def \<open>pos\<close>)
      next
        case F: False
        then have lt: "uint d0 + uint d1 * 1000000000 + uint d2 * 1000000000000000000 < 9223372036854775808"
          using ap by blast
        from F r lt ge show ?thesis by (simp add: Let_def medint_val_def \<open>pos\<close>)
      qed
    next
      case False
      have r: "wikrt_peek_i64 cx v =
         (if uint d2 > 9 \<or> (uint d2 = 9 \<and> (uint d1 > 223372036 \<or> (uint d1 = 223372036 \<and> uint d0 > 854775808)))
          then (WIKRT_BUFFSZ, INT64_MIN)
          else (WIKRT_OK, word_of_int (- (uint d0 + uint d1 * 1000000000 + uint d2 * 1000000000000000000))))"
        unfolding wikrt_peek_i64_def using ni
        by (simp only: pm False Let_def z NZ c2 e2 c1 e1 c0n w3n_64 if_False if_True prod.case simp_thms wikrt_err.simps)
      have lt: "- (uint d0 + uint d1 * 1000000000 + uint d2 * 1000000000000000000) < 9223372036854775808"
        using two(2) uint32_bound(2)[of d2] by linarith
      show ?thesis
      proof (cases "uint d2 > 9 \<or> (uint d2 = 9 \<and> (uint d1 > 223372036 \<or> (uint d1 = 223372036 \<and> uint d0 > 854775808)))")
        case T: True
        then have "\<not> (uint d0 + uint d1 * 1000000000 + uint d2 * 1000000000000000000 \<le> 9223372036854775808)"
          using an by blast
        then have "\<not> - (2 ^ 63) \<le> medint_val pos d0 d1 d2" by (simp add: medint_val_def \<open>\<not> pos\<close>)
        with T r show ?thesis by (simp add: Let_def \<open>\<not> pos\<close>)
      next
        case F: False
        then have le: "uint d0 + uint d1 * 1000000000 + uint d2 * 1000000000000000000 \<le> 9223372036854775808"
          using an by blast
        from F r le lt show ?thesis by (simp add: Let_def medint_val_def \<open>\<not> pos\<close>)
      qed
    qed
  qed
qed


section \<open>Digits written by the integer constructors\<close>

lemma sdiv_pos: "0 < (A::int) \<Longrightarrow> A sdiv 1000000000 = A div 1000000000"
  by (simp add: signed_divide_int_def)
lemma smod_pos: "0 \<le> (A::int) \<Longrightarrow> A smod 1000000000 = A mod 1000000000"
  by (simp add: smod_mod_positive)
lemma sdiv_nonneg: "0 \<le> (A::int) \<Longrightarrow> A sdiv 1000000000 = A div 1000000000"
  by (cases "A = 0") (simp_all add: sdiv_pos)





lemma sint_abs64:
  fixes n :: "64 word"
  assumes "n \<noteq> INT64_MIN"
  shows "sint (if 0 \<le> sint n then n else - n) = \<bar>sint n\<bar>"
proof -
  have "sint n \<noteq> - 9223372036854775808"
  proof
    assume "sint n = - 9223372036854775808"
    then have "word_of_int (sint n) = (word_of_int (- 9223372036854775808) :: 64 word)" by simp
    then have "n = INT64_MIN" by (simp add: INT64_MIN_def)
    with assms show False by simp
  qed
  moreover have "- 9223372036854775808 \<le> sint n" "sint n < 9223372036854775808"
    using sint_range_size[of n] by (simp_all add: word_size)
  ultimately have r: "- 9223372036854775808 \<le> - sint n" "- sint n < 9223372036854775808" by linarith+
  show ?thesis
  proof (cases "0 \<le> sint n")
    case True then show ?thesis by simp
  next
    case False
    then have "sint (- n) = - sint n" using r
      by (simp add: sint_word_minus signed_take_bit_int_eq_self)
    with False show ?thesis by simp
  qed
qed

lemma sint_woi64: "0 \<le> k \<Longrightarrow> k < 9223372036854775808 \<Longrightarrow> sint (word_of_int k :: 64 word) = k"
  by (simp add: sint_sbintrunc' signed_take_bit_int_eq_self)

lemma uint_ucast_woi64:
  "0 \<le> k \<Longrightarrow> k < 4294967296 \<Longrightarrow> uint (ucast (word_of_int k :: 64 word) :: 32 word) = k"
  by (simp add: ucast_eq uint_word_of_int_eq take_bit_int_eq_self)

lemma three_digits:
  fixes A :: int
  assumes "0 \<le> A"
  shows "A mod 1000000000 + (A div 1000000000 mod 1000000000) * 1000000000
     + (A div 1000000000 div 1000000000) * 1000000000000000000 = A"
proof -
  define q1 where "q1 = A div 1000000000"
  have 1: "A = q1 * 1000000000 + A mod 1000000000" by (simp add: q1_def)
  have 2: "q1 = (q1 div 1000000000) * 1000000000 + q1 mod 1000000000" by simp
  show ?thesis unfolding q1_def[symmetric] using 1 2 by linarith
qed

lemma alloc_i64_digits:
  fixes n :: "64 word"
  assumes big: "\<not> (WIKRT_SMALLINT_MIN \<le> sint n \<and> sint n \<le> WIKRT_SMALLINT_MAX)"
  shows "\<exists>pos d0 d1 d2. wikrt_alloc_i64 prims cx n = wikrt_alloc_medint prims cx pos d0 d1 d2 \<and>
      medint_val pos d0 d1 d2 = sint n \<and> uint d0 < 1000000000 \<and> uint d1 < 1000000000"
proof (cases "n = INT64_MIN")
  case True
  have s: "sint (INT64_MIN) = - 9223372036854775808" by (simp add: INT64_MIN_def)
  with True have e: "wikrt_alloc_i64 prims cx n = wikrt_alloc_medint prims cx False 854775808 223372036 9"
    by (simp add: wikrt_alloc_i64_def WIKRT_SMALLINT_MIN_def WIKRT_SMALLINT_MAX_def)
  have "medint_val False 854775808 223372036 9 = sint n \<and> uint (854775808 :: 32 word) < 1000000000
      \<and> uint (223372036 :: 32 word) < 1000000000"
    using True s by (simp add: medint_val_def)
  with e show ?thesis by blast
next
  case False
  define A where "A = \<bar>sint n\<bar>"
  define n1 where "n1 = (if 0 \<le> sint n then n else - n)"
  define n2 :: "64 word" where "n2 = c_sdiv n1 WIKRT_BIGINT_DIGIT"
  have sA: "sint n1 = A" unfolding n1_def A_def by (rule sint_abs64[OF False])
  have A: "0 < A" "A < 9223372036854775808" using big sint_abs64[OF False] sint_range_size[of n1]
    by (auto simp: A_def WIKRT_SMALLINT_MIN_def WIKRT_SMALLINT_MAX_def word_size n1_def split: if_splits)
  define q1 where "q1 = A div 1000000000"
  have q1: "0 \<le> q1" "q1 < 9223372036854775808" using A by (simp_all add: q1_def)
  have s2: "sint n2 = q1"
    using q1 A by (simp add: n2_def c_sdiv_def sA WIKRT_BIGINT_DIGIT_def sdiv_pos sint_woi64 q1_def)
  have q2: "0 \<le> q1 div 1000000000" "q1 div 1000000000 < 4294967296" using A by (simp_all add: q1_def)
  have u0: "uint (ucast (c_smod n1 WIKRT_BIGINT_DIGIT :: 64 word) :: 32 word) = A mod 1000000000"
    using A by (simp add: c_smod_def sA WIKRT_BIGINT_DIGIT_def smod_pos uint_ucast_woi64)
  have u1: "uint (ucast (c_smod n2 WIKRT_BIGINT_DIGIT :: 64 word) :: 32 word) = q1 mod 1000000000"
    using q1 by (simp add: c_smod_def s2 WIKRT_BIGINT_DIGIT_def smod_pos uint_ucast_woi64)
  have u2: "uint (ucast (c_sdiv n2 WIKRT_BIGINT_DIGIT :: 64 word) :: 32 word) = q1 div 1000000000"
    using q1 q2 by (simp add: c_sdiv_def s2 WIKRT_BIGINT_DIGIT_def sdiv_nonneg uint_ucast_woi64)
  have e: "wikrt_alloc_i64 prims cx n = wikrt_alloc_medint prims cx (0 \<le> sint n)
      (ucast (c_smod n1 WIKRT_BIGINT_DIGIT)) (ucast (c_smod n2 WIKRT_BIGINT_DIGIT))
      (ucast (c_sdiv n2 WIKRT_BIGINT_DIGIT))"
    using big False by (auto simp add: wikrt_alloc_i64_def Let_def n1_def n2_def)
  have v: "medint_val (0 \<le> sint n) (ucast (c_smod n1 WIKRT_BIGINT_DIGIT)) (ucast (c_smod n2 WIKRT_BIGINT_DIGIT))
      (ucast (c_sdiv n2 WIKRT_BIGINT_DIGIT)) = sint n"
    using three_digits[of A] A by (simp add: medint_val_def u0 u1 u2 q1_def A_def)
  have "uint (ucast (c_smod n1 WIKRT_BIGINT_DIGIT :: 64 word) :: 32 word) < 1000000000"
    "uint (ucast (c_smod n2 WIKRT_BIGINT_DIGIT :: 64 word) :: 32 word) < 1000000000"
    by (simp_all add: u0 u1)
  with e v show ?thesis by blast
qed


section \<open>Small integers and the 64-bit round trip\<close>

lemma wikrt_i_i2v: "wikrt_i (wikrt_i2v n)"
proof -
  have "push_bit 1 n AND (1 :: 32 word) = 0"
    by (rule bit_word_eqI) (auto simp only: bit_and_iff bit_push_bit_iff bit_1_iff bit_0_eq)
  then show ?thesis by (simp add: wikrt_i_def wikrt_i2v_def)
qed

lemma sint_i2v:
  assumes "- (2 ^ 30) \<le> sint n" "sint n < 2 ^ 30"
  shows "sint (wikrt_i2v n) = 2 * sint n"
proof -
  have "wikrt_i2v n = n * 2" by (simp add: wikrt_i2v_def push_bit_eq_mult)
  then have "sint (wikrt_i2v n) = signed_take_bit 31 (sint n * 2)"
    by (simp add: sint_word_mult)
  also have "\<dots> = sint n * 2" using assms by (simp add: signed_take_bit_int_eq_self)
  finally show ?thesis by simp
qed

lemma v2i_i2v:
  assumes "- (2 ^ 30) \<le> sint n" "sint n < 2 ^ 30"
  shows "wikrt_v2i (wikrt_i2v n) = n"
proof -
  have "sint (wikrt_v2i (wikrt_i2v n)) = sint n"
    by (simp add: wikrt_v2i_def sint_signed_drop_bit_eq sint_i2v[OF assms] drop_bit_eq_div)
  then have "word_of_int (sint (wikrt_v2i (wikrt_i2v n))) = (word_of_int (sint n) :: 32 word)" by simp
  then show ?thesis by simp
qed

lemma sint_ucast_64_32:
  fixes n :: "64 word"
  assumes "- (2 ^ 31) \<le> sint n" "sint n < 2 ^ 31"
  shows "sint (ucast n :: 32 word) = sint n"
proof -
  have a: "sint n = signed_take_bit 63 (uint n)" by (simp add: sint_uint)
  have "take_bit (Suc 31) (sint n) = take_bit (Suc 31) (uint n)"
    unfolding a by (rule take_bit_signed_take_bit) simp
  then have b: "signed_take_bit 31 (uint n) = signed_take_bit 31 (sint n)"
    by (simp only: signed_take_bit_eq_iff_take_bit_eq)
  have "sint (ucast n :: 32 word) = signed_take_bit 31 (uint n)"
    by (simp only: ucast_eq sint_sbintrunc') simp
  also note b
  also have "signed_take_bit 31 (sint n) = sint n" using assms by (simp add: signed_take_bit_int_eq_self)
  finally show ?thesis .
qed


lemma i64_roundtrip:
  assumes al: "fl_aligned prims"
    and r: "wikrt_alloc_i64 prims cx n = (WIKRT_OK, vo, cx')"
  shows "\<exists>v. vo = Some v \<and> wikrt_peek_i64 cx' v = (WIKRT_OK, n)"
proof (cases "WIKRT_SMALLINT_MIN \<le> sint n \<and> sint n \<le> WIKRT_SMALLINT_MAX")
  case True
  then have rng: "- (2 ^ 31) \<le> sint n" "sint n < 2 ^ 31"
    by (simp_all add: WIKRT_SMALLINT_MIN_def WIKRT_SMALLINT_MAX_def)
  have s: "sint (ucast n :: 32 word) = sint n" by (rule sint_ucast_64_32[OF rng])
  with True have rng': "- (2 ^ 30) \<le> sint (ucast n :: 32 word)" "sint (ucast n :: 32 word) < 2 ^ 30"
    by (simp_all add: WIKRT_SMALLINT_MIN_def WIKRT_SMALLINT_MAX_def)
  from True r have vo: "vo = Some (wikrt_i2v (ucast n))" and "cx' = cx"
    by (simp_all add: wikrt_alloc_i64_def)
  have "scast (ucast n :: 32 word) = (word_of_int (sint n) :: 64 word)"
    by (simp only: scast_eq s)
  then have "scast (ucast n :: 32 word) = n" by simp
  then show ?thesis
    by (simp add: vo wikrt_peek_i64_def wikrt_i_i2v v2i_i2v[OF rng'])
next
  case False
  from alloc_i64_digits[OF False, of prims cx] obtain pos d0 d1 d2 where
    e: "wikrt_alloc_i64 prims cx n = wikrt_alloc_medint prims cx pos d0 d1 d2"
    and v: "medint_val pos d0 d1 d2 = sint n" and d0: "uint d0 < 1000000000" and d1: "uint d1 < 1000000000"
    by blast
  from e r have "wikrt_alloc_medint prims cx pos d0 d1 d2 = (WIKRT_OK, vo, cx')" by simp
  from peek_alloc_medint[OF al this] obtain w where vo: "vo = Some w" and ni: "\<not> wikrt_i w"
    and pm: "wikrt_peek_medint cx' w = (WIKRT_OK, pos, d0, d1, d2)" by blast
  have rng: "- (2 ^ 63) \<le> sint n" "sint n < 2 ^ 63"
    using sint_range_size[of n] by (simp_all add: word_size)
  from peek_i64_medint[OF pm ni d0 d1] rng show ?thesis by (simp add: vo v Let_def)
qed


section \<open>Big integers against the fixed widths\<close>

lemma digits_val_nonneg: "list_all (\<lambda>d. 0 \<le> d) ds \<Longrightarrow> 0 \<le> digits_val ds"
  by (induction ds) auto

lemma digits_val_pos:
  "ds \<noteq> [] \<Longrightarrow> list_all (\<lambda>d. 0 \<le> d) ds \<Longrightarrow> last ds \<noteq> 0 \<Longrightarrow> 0 < digits_val ds"
proof (induction ds)
  case Nil then show ?case by simp
next
  case (Cons d ds)
  show ?case
  proof (cases "ds = []")
    case True with Cons.prems show ?thesis by simp
  next
    case False
    with Cons have "0 < digits_val ds" by simp
    moreover from Cons.prems have "0 \<le> d" by simp
    ultimately show ?thesis by simp
  qed
qed

lemma bigint_digits_nonneg: "list_all (\<lambda>d. 0 \<le> d) (bigint_digits cx v)"
  by (simp add: bigint_digits_def list_all_iff)

lemma positive_bit8: "(256 AND (w :: 32 word) = 0) = (\<not> bit w 8)"
proof -
  have "(256 :: 32 word) = 2 ^ 8" by simp
  then show ?thesis
    by (metis and.commute and_exp_eq_0_iff_not_bit)
qed

lemma word32_gt_unat: "((w :: 32 word) > 3) = (3 < unat w)" "((w :: 32 word) > 2) = (2 < unat w)"
  by (simp_all add: word_less_nat_alt)

lemma peek_medint_bigint:
  assumes "is_bigint cx v"
  shows "wikrt_peek_medint cx v =
    (if 3 < length (bigint_digits cx v) then WIKRT_BUFFSZ else WIKRT_OK, bigint_positive cx v,
     pval_get cx (wikrt_vaddr v) 1, pval_get cx (wikrt_vaddr v) 2,
     if 2 < length (bigint_digits cx v) then pval_get cx (wikrt_vaddr v) 3 else 0)"
  using assms
  by (simp add: wikrt_peek_medint_def is_bigint_def Let_def positive_bit8 bigint_positive_def
      word32_gt_unat bigint_digits_def)


lemma bigint_digits_2:
  assumes "length (bigint_digits cx v) = 2"
  shows "bigint_digits cx v =
    [uint (pval_get cx (wikrt_vaddr v) 1), uint (pval_get cx (wikrt_vaddr v) 2)]"
proof -
  from assms have "unat (drop_bit 9 (pval_get cx (wikrt_vaddr v) 0)) = 2"
    by (simp add: bigint_digits_def)
  then show ?thesis by (simp add: bigint_digits_def upt_rec numeral_2_eq_2)
qed

lemma bigint_digits_3:
  assumes "length (bigint_digits cx v) = 3"
  shows "bigint_digits cx v =
    [uint (pval_get cx (wikrt_vaddr v) 1), uint (pval_get cx (wikrt_vaddr v) 2),
     uint (pval_get cx (wikrt_vaddr v) 3)]"
proof -
  from assms have "unat (drop_bit 9 (pval_get cx (wikrt_vaddr v) 0)) = 3"
    by (simp add: bigint_digits_def)
  then show ?thesis by (simp add: bigint_digits_def upt_rec numeral_3_eq_3 numeral_2_eq_2)
qed

lemma digits_val_big:
  assumes "4 \<le> length ds" "list_all (\<lambda>d. 0 \<le> d) ds" "last ds \<noteq> 0"
  shows "1000000000000000000000000000 \<le> digits_val ds"
proof -
  from assms(1) obtain a b c es where ds: "ds = a # b # c # es" and es: "es \<noteq> []"
    by (cases ds; cases "tl ds"; cases "tl (tl ds)"; cases "tl (tl (tl ds))") auto
  from assms ds es have "0 \<le> a" "0 \<le> b" "0 \<le> c" "0 < digits_val es"
    using digits_val_pos[of es] by auto
  then show ?thesis by (simp add: ds)
qed

lemma bigint_medint:
  assumes big: "is_bigint cx v" and wf: "bigint_wf cx v" and n: "length (bigint_digits cx v) \<le> 3"
  shows "\<exists>d0 d1 d2. wikrt_peek_medint cx v = (WIKRT_OK, bigint_positive cx v, d0, d1, d2) \<and>
     uint d0 < 1000000000 \<and> uint d1 < 1000000000 \<and>
     medint_val (bigint_positive cx v) d0 d1 d2 =
       (if bigint_positive cx v then 1 else - 1) * digits_val (bigint_digits cx v)"
proof -
  from wf n have "length (bigint_digits cx v) = 2 \<or> length (bigint_digits cx v) = 3"
    by (auto simp: bigint_wf_def)
  then show ?thesis
  proof
    assume l: "length (bigint_digits cx v) = 2"
    note ds = bigint_digits_2[OF l]
    from wf have "uint (pval_get cx (wikrt_vaddr v) 1) < 1000000000"
      "uint (pval_get cx (wikrt_vaddr v) 2) < 1000000000"
      by (simp_all add: bigint_wf_def ds)
    then show ?thesis
      by (simp add: peek_medint_bigint[OF big] l medint_val_def ds)
  next
    assume l: "length (bigint_digits cx v) = 3"
    note ds = bigint_digits_3[OF l]
    from wf have "uint (pval_get cx (wikrt_vaddr v) 1) < 1000000000"
      "uint (pval_get cx (wikrt_vaddr v) 2) < 1000000000"
      by (simp_all add: bigint_wf_def ds)
    then show ?thesis
      by (simp add: peek_medint_bigint[OF big] l medint_val_def ds)
  qed
qed

lemma peek_saturates_aux:
  assumes v: "wikrt_int_value cx v = Some i"
    and wf: "\<not> wikrt_i v \<longrightarrow> bigint_wf cx v"
  shows "(\<not> (- (2 ^ 31) \<le> i \<and> i < 2 ^ 31) \<longrightarrow>
            wikrt_peek_i32 cx v = (WIKRT_BUFFSZ, if 0 < i then INT32_MAX else INT32_MIN)) \<and>
         (\<not> (- (2 ^ 63) \<le> i \<and> i < 2 ^ 63) \<longrightarrow>
            wikrt_peek_i64 cx v = (WIKRT_BUFFSZ, if 0 < i then INT64_MAX else INT64_MIN))"
proof (cases "wikrt_i v")
  case True
  with v have "i = sint (wikrt_v2i v)" by (simp add: wikrt_int_value_def)
  moreover have "- (2 ^ 31) \<le> sint (wikrt_v2i v)" "sint (wikrt_v2i v) < 2 ^ 31"
    using sint_range_size[of "wikrt_v2i v"] by (simp_all add: word_size)
  ultimately show ?thesis by simp
next
  case ni: False
  with v have big: "is_bigint cx v"
    and i: "i = (if bigint_positive cx v then 1 else - 1) * digits_val (bigint_digits cx v)"
    by (auto simp: wikrt_int_value_def split: if_splits)
  from wf ni have wf': "bigint_wf cx v" by simp
  have pos: "0 < digits_val (bigint_digits cx v)"
    using wf' bigint_digits_nonneg[of cx v] by (intro digits_val_pos) (auto simp: bigint_wf_def)
  then have sgn: "(0 < i) = bigint_positive cx v" by (simp add: i)
  show ?thesis
  proof (cases "3 < length (bigint_digits cx v)")
    case True
    have pm: "wikrt_peek_medint cx v = (WIKRT_BUFFSZ, bigint_positive cx v,
       pval_get cx (wikrt_vaddr v) 1, pval_get cx (wikrt_vaddr v) 2, pval_get cx (wikrt_vaddr v) 3)"
      using True by (simp add: peek_medint_bigint[OF big])
    show ?thesis using ni by (simp add: wikrt_peek_i32_def wikrt_peek_i64_def pm sgn)
  next
    case False
    then have n: "length (bigint_digits cx v) \<le> 3" by simp
    from bigint_medint[OF big wf' n] obtain d0 d1 d2 where
      pm: "wikrt_peek_medint cx v = (WIKRT_OK, bigint_positive cx v, d0, d1, d2)"
      and d0: "uint d0 < 1000000000" and d1: "uint d1 < 1000000000"
      and mv: "medint_val (bigint_positive cx v) d0 d1 d2 = i" unfolding i by blast
    from peek_i32_medint[OF pm ni d0 d1] peek_i64_medint[OF pm ni d0 d1]
    show ?thesis by (simp add: mv Let_def sgn)
  qed
qed


section \<open>The 32-bit constructor\<close>






section \<open>Sums\<close>





lemma tags_fixed: "WIKRT_O AND 7 = WIKRT_O" "WIKRT_P AND 7 = WIKRT_P" "WIKRT_PL AND 7 = WIKRT_PL"
  "WIKRT_PR AND 7 = WIKRT_PR"
  by (simp_all add: WIKRT_O_def WIKRT_P_def WIKRT_PL_def WIKRT_PR_def)

lemma tags_distinct: "WIKRT_O \<noteq> WIKRT_P" "WIKRT_O \<noteq> WIKRT_PL" "WIKRT_O \<noteq> WIKRT_PR"
  "WIKRT_P \<noteq> WIKRT_PL" "WIKRT_P \<noteq> WIKRT_PR" "WIKRT_PL \<noteq> WIKRT_PR"
  by (simp_all add: WIKRT_O_def WIKRT_P_def WIKRT_PL_def WIKRT_PR_def)

lemma deepsum_low: "wikrt_otag_deepsum (push_bit 8 sf OR WIKRT_OTAG_DEEPSUM)"
  by (simp add: wikrt_otag_deepsum_def LOBYTE_def WIKRT_OTAG_DEEPSUM_def bit.conj_disj_distrib2 push8_and_255)

lemma bit_lt:
  fixes w :: "32 word"
  assumes "w < 2 ^ k" and "bit w n"
  shows "n < k"
proof -
  from assms(1) have e: "w AND mask k = w" by (rule less_mask_eq)
  have "bit (w AND mask k) n" using assms(2) by (simp only: e)
  then show ?thesis by (simp add: bit_and_iff bit_mask_iff)
qed

lemma bits_lt:
  fixes w :: "32 word"
  assumes "\<And>n. bit w n \<Longrightarrow> n < k" and "k < 32"
  shows "w < 2 ^ k"
proof -
  have "w AND mask k = w"
    by (rule bit_word_eqI) (auto simp add: bit_and_iff bit_mask_iff dest: assms(1))
  then show ?thesis using assms(2) by (simp add: mask_eq_iff_w2p word_size)
qed

lemma drop8_mk:
  fixes sf :: "32 word"
  assumes "sf < 2 ^ 24"
  shows "drop_bit 8 (push_bit 8 sf OR WIKRT_OTAG_DEEPSUM) = sf"
proof -
  have "drop_bit 8 (push_bit 8 sf) = sf"
    by (rule bit_word_eqI) (auto simp add: bit_simps dest: bit_lt[OF assms])
  then show ?thesis by (simp add: drop_bit_or WIKRT_OTAG_DEEPSUM_def)
qed


lemma push2_lt:
  fixes s0 d :: "32 word"
  assumes "s0 < 2 ^ 22" and "d < 2 ^ 2"
  shows "push_bit 2 s0 OR d < 2 ^ 24"
proof (rule bits_lt)
  fix n assume "bit (push_bit 2 s0 OR d) n"
  then consider "bit (push_bit 2 s0) n" | "bit d n" by (auto simp: bit_or_iff)
  then show "n < 24"
  proof cases
    case 1
    then have "2 \<le> n" "bit s0 (n - 2)" by (auto simp: bit_push_bit_iff)
    with bit_lt[OF assms(1)] have "n - 2 < 22" by blast
    with \<open>2 \<le> n\<close> show ?thesis by simp
  next
    case 2
    with bit_lt[OF assms(2)] have "n < 2" by blast
    then show ?thesis by simp
  qed
qed simp



lemma wikrt_alloc_ct:
  assumes "wikrt_alloc prims cx sz = (True, a, cx')"
  shows "ct_bytes_alloc cx' = ct_bytes_alloc cx + ucast (WIKRT_CELLBUFF sz)"
proof -
  have loc: "\<And>c s b c'. wikrt_alloc_local prims c s = (True, b, c') \<Longrightarrow>
      ct_bytes_alloc c' = ct_bytes_alloc c + ucast s"
    by (auto simp: wikrt_alloc_local_def split: prod.splits if_splits)
  obtain ok a1 cx1 where f: "wikrt_alloc_local prims cx (WIKRT_CELLBUFF sz) = (ok, a1, cx1)"
    by (cases "wikrt_alloc_local prims cx (WIKRT_CELLBUFF sz)") auto
  show ?thesis
  proof (cases ok)
    case True
    with f assms have "wikrt_alloc_local prims cx (WIKRT_CELLBUFF sz) = (True, a, cx')"
      by (simp add: wikrt_alloc_def Let_def)
    then show ?thesis by (rule loc)
  next
    case False
    with f assms have r: "wikrt_alloc_local prims
        (wikrt_acquire_shared_memory prims cx1 (WIKRT_PAGEBUFF (WIKRT_CELLBUFF sz))) (WIKRT_CELLBUFF sz) = (True, a, cx')"
      by (simp add: wikrt_alloc_def Let_def)
    from f False have "wikrt_alloc_local prims cx (WIKRT_CELLBUFF sz) = (False, a1, cx1)" by simp
    then have "ct_bytes_alloc cx1 = ct_bytes_alloc cx" by (rule alloc_local_False)
    with loc[OF r] show ?thesis by (simp add: acquire_shared_memory_ct)
  qed
qed

lemma alloc_cellval_Caller:
  assumes al: "fl_aligned prims"
    and r: "wikrt_alloc_cellval prims (x, cx) Caller tag v0 v1 = (True, x', cx')"
  shows "\<exists>a. a AND 7 = 0 \<and> a \<noteq> 0 \<and> x' = wikrt_tag_addr tag a \<and>
     pval_get cx' a 0 = v0 \<and> pval_get cx' a 1 = v1 \<and>
     ct_bytes_alloc cx' = ct_bytes_alloc cx + 8"
proof -
  obtain ok a cx1 where A: "wikrt_alloc prims cx WIKRT_CELLSIZE = (ok, a, cx1)"
    by (cases "wikrt_alloc prims cx WIKRT_CELLSIZE") auto
  with r have ok: ok by (auto simp: wikrt_alloc_cellval_def split: if_splits)
  with A have A': "wikrt_alloc prims cx WIKRT_CELLSIZE = (True, a, cx1)" by simp
  from wikrt_alloc_True[OF A' al] have a: "a AND 7 = 0" "a \<noteq> 0"
    and ct: "ct_bytes_alloc cx1 = ct_bytes_alloc cx + 8"
    by (simp_all add: cellbuff_12 WIKRT_CELLSIZE_def)
  from r A' have x': "x' = wikrt_tag_addr tag a"
    and cx': "cx' = pval_set (pval_set cx1 a 0 v0) a 1 v1"
    by (simp_all add: wikrt_alloc_cellval_def)
  have "pval_get cx' a 0 = v0" "pval_get cx' a 1 = v1" "ct_bytes_alloc cx' = ct_bytes_alloc cx + 8"
    by (simp_all add: cx' pval_get_def pval_set_def load32_store32_same load32_store32_other ct)
  with a x' show ?thesis by blast
qed

lemma alloc_cellval_False:
  "wikrt_alloc_cellval prims (x, cx) dst tag v0 v1 = (False, x', cx') \<Longrightarrow> x' = x"
  by (auto simp: wikrt_alloc_cellval_def split: prod.splits if_splits)

lemma and3_dir:
  fixes s0 :: "32 word"
  shows "3 AND (push_bit 2 s0 OR 3) = 3" "3 AND (push_bit 2 s0 OR 2) = 2"
proof -
  have z: "3 AND push_bit 2 s0 = 0"
  proof -
    have "(3 :: 32 word) = mask 2" by (simp add: mask_eq_exp_minus_1)
    moreover have "mask 2 AND push_bit 2 s0 = 0"
      by (rule bit_word_eqI) (auto simp add: bit_simps)
    ultimately show ?thesis by simp
  qed
  show "3 AND (push_bit 2 s0 OR 3) = 3" "3 AND (push_bit 2 s0 OR 2) = 2"
    by (simp_all add: bit.conj_disj_distrib z)
qed

lemma drop2_dir:
  fixes s0 :: "32 word"
  assumes "s0 < 2 ^ 22"
  shows "drop_bit 2 (push_bit 2 s0 OR 3) = s0" "drop_bit 2 (push_bit 2 s0 OR 2) = s0"
proof -
  have "drop_bit 2 (push_bit 2 s0) = s0"
    by (rule bit_word_eqI) (auto simp add: bit_simps dest: bit_lt[OF assms])
  then show "drop_bit 2 (push_bit 2 s0 OR 3) = s0" "drop_bit 2 (push_bit 2 s0 OR 2) = s0"
    by (simp_all add: drop_bit_or)
qed

lemma split_sum_deepsum:
  assumes "wikrt_vtag c = WIKRT_O" and "wikrt_otag_deepsum (pval_get cx (wikrt_vaddr c) 0)"
  shows "wikrt_split_sum prims cx c =
    (if drop_bit 2 (drop_bit 8 (pval_get cx (wikrt_vaddr c) 0)) = 0
     then (WIKRT_OK, 3 AND drop_bit 8 (pval_get cx (wikrt_vaddr c) 0) = 3,
           pval_get cx (wikrt_vaddr c) 1, wikrt_free prims cx WIKRT_CELLSIZE (wikrt_vaddr c))
     else (WIKRT_OK, 3 AND drop_bit 8 (pval_get cx (wikrt_vaddr c) 0) = 3, c,
           pval_set cx (wikrt_vaddr c) 0
             (push_bit 8 (drop_bit 2 (drop_bit 8 (pval_get cx (wikrt_vaddr c) 0))) OR WIKRT_OTAG_DEEPSUM)))"
  using assms tags_distinct
  by (simp add: wikrt_split_sum_def Let_def eq_commute[of 3] eq_commute[of 0] del: drop_bit_drop_bit)

lemma split_deepsum_inplace:
  fixes s0 :: "32 word"
  assumes tag: "wikrt_vtag c = WIKRT_O"
    and cell: "pval_get cx (wikrt_vaddr c) 0 = push_bit 8 (push_bit 2 s0 OR (if t then 3 else 2)) OR WIKRT_OTAG_DEEPSUM"
    and s0: "s0 < 2 ^ 22" "s0 \<noteq> 0"
  shows "wikrt_split_sum prims cx c = (WIKRT_OK, t, c,
     pval_set cx (wikrt_vaddr c) 0 (push_bit 8 s0 OR WIKRT_OTAG_DEEPSUM))"
proof -
  define sf where "sf = push_bit 2 s0 OR (if t then 3 else 2)"
  have lt: "sf < 2 ^ 24" unfolding sf_def
    by (rule push2_lt[OF s0(1)]) simp
  have c0: "pval_get cx (wikrt_vaddr c) 0 = push_bit 8 sf OR WIKRT_OTAG_DEEPSUM"
    unfolding sf_def by (rule cell)
  have d: "wikrt_otag_deepsum (pval_get cx (wikrt_vaddr c) 0)"
    unfolding c0 by (rule deepsum_low)
  have e8: "drop_bit 8 (pval_get cx (wikrt_vaddr c) 0) = sf"
    unfolding c0 by (rule drop8_mk[OF lt])
  have e2: "drop_bit 2 sf = s0" unfolding sf_def
    using drop2_dir[OF s0(1)] by (cases t) (simp_all only: if_True if_False)
  have e3: "(3 AND sf = 3) = t" unfolding sf_def
    using and3_dir[of s0] by (cases t) (simp_all only: if_True if_False, simp_all)
  show ?thesis
    unfolding split_sum_deepsum[OF tag d] e8 e2 e3 using s0(2) by simp
qed

lemma split_deepsum_last:
  assumes tag: "wikrt_vtag c = WIKRT_O"
    and cell: "pval_get cx (wikrt_vaddr c) 0 = push_bit 8 (if t then 3 else 2) OR WIKRT_OTAG_DEEPSUM"
  shows "wikrt_split_sum prims cx c = (WIKRT_OK, t, pval_get cx (wikrt_vaddr c) 1,
     wikrt_free prims cx WIKRT_CELLSIZE (wikrt_vaddr c))"
proof -
  define sf :: "32 word" where "sf = (if t then 3 else 2)"
  have lt: "sf < 2 ^ 24" unfolding sf_def by simp
  have c0: "pval_get cx (wikrt_vaddr c) 0 = push_bit 8 sf OR WIKRT_OTAG_DEEPSUM"
    unfolding sf_def by (rule cell)
  have d: "wikrt_otag_deepsum (pval_get cx (wikrt_vaddr c) 0)"
    unfolding c0 by (rule deepsum_low)
  have e8: "drop_bit 8 (pval_get cx (wikrt_vaddr c) 0) = sf"
    unfolding c0 by (rule drop8_mk[OF lt])
  have e2: "drop_bit 2 sf = 0" unfolding sf_def by simp
  have e3: "(3 AND sf = 3) = t" unfolding sf_def by simp
  show ?thesis
    unfolding split_sum_deepsum[OF tag d] e8 e2 e3 by simp
qed



lemma dir_code: "(if t then WIKRT_DEEPSUMR else WIKRT_DEEPSUML) = (if t then 3 else 2)"
  by (simp add: WIKRT_DEEPSUMR_def WIKRT_DEEPSUML_def)

lemma alloc_sum_P:
  assumes "wikrt_vtag v = WIKRT_P"
  shows "wikrt_alloc_sum prims cx c0 t v =
    (WIKRT_OK, wikrt_tag_addr (if t then WIKRT_PR else WIKRT_PL) (wikrt_vaddr v), cx)"
  using assms by (simp add: wikrt_alloc_sum_def Let_def)

lemma alloc_sum_inplace:
  assumes "wikrt_vtag v = WIKRT_O" "wikrt_otag_deepsum (pval_get cx (wikrt_vaddr v) 0)"
    "pval_get cx (wikrt_vaddr v) 0 < push_bit 30 1"
  shows "wikrt_alloc_sum prims cx c0 t v =
    (WIKRT_OK, v, pval_set cx (wikrt_vaddr v) 0
       (push_bit 8 (push_bit 2 (drop_bit 8 (pval_get cx (wikrt_vaddr v) 0)) OR (if t then 3 else 2))
          OR WIKRT_OTAG_DEEPSUM))"
proof -
  from assms tags_distinct have a: "(WIKRT_P = wikrt_vtag v) = False"
    "(WIKRT_O = wikrt_vtag v \<and> wikrt_otag_deepsum (pval_get cx (wikrt_vaddr v) 0) \<and>
        pval_get cx (wikrt_vaddr v) 0 < push_bit 30 1) = True"
    by auto
  show ?thesis
    unfolding wikrt_alloc_sum_def Let_def dir_code a by (simp only: if_False if_True)
qed

lemma alloc_sum_fresh:
  assumes "wikrt_vtag v \<noteq> WIKRT_P"
    "\<not> (wikrt_vtag v = WIKRT_O \<and> wikrt_otag_deepsum (pval_get cx (wikrt_vaddr v) 0) \<and>
        pval_get cx (wikrt_vaddr v) 0 < push_bit 30 1)"
  shows "wikrt_alloc_sum prims cx c0 t v =
    (case wikrt_alloc_cellval prims (c0, cx) Caller WIKRT_O
            (push_bit 8 (if t then 3 else 2) OR WIKRT_OTAG_DEEPSUM) v of
       (ok, c', cx') \<Rightarrow> if \<not> ok then (WIKRT_CXFULL, c', cx') else (WIKRT_OK, c', cx'))"
proof -
  from assms have a: "(WIKRT_P = wikrt_vtag v) = False"
    "(WIKRT_O = wikrt_vtag v \<and> wikrt_otag_deepsum (pval_get cx (wikrt_vaddr v) 0) \<and>
        pval_get cx (wikrt_vaddr v) 0 < push_bit 30 1) = False"
    by auto
  show ?thesis
    unfolding wikrt_alloc_sum_def Let_def dir_code a by (simp only: if_False)
qed


lemma alloc_sum_cases:
  "fst (wikrt_alloc_sum prims cx c0 t v) = WIKRT_OK \<or> fst (wikrt_alloc_sum prims cx c0 t v) = WIKRT_CXFULL"
  by (auto simp: wikrt_alloc_sum_def Let_def split: prod.splits)




section \<open>Evaluation in the concrete context\<close>

lemma run_prims_aligned: "fl_aligned run_prims"
  by (auto simp: fl_aligned_def run_prims_def run_alloc_def split: list.splits if_splits)

lemmas run_defs = wikrt_alloc_medint_def wikrt_alloc_def WIKRT_CELLBUFF_def
    WIKRT_LNBUFF_POW2_def WIKRT_CELLSIZE_def wikrt_alloc_local_def run_prims_def run_alloc_def run_cx_def
    wikrt_tag_addr_def WIKRT_O_def pval_set_def wikrt_mkotag_bigint_def WIKRT_OTAG_BIGINT_def Let_def

lemma big_cx_mem:
  "pval_get big_cx 8 0 = 0x64E" "pval_get big_cx 8 (Suc 0) = 0" "pval_get big_cx 8 2 = 0" "pval_get big_cx 8 3 = 10"
  by (simp_all add: big_cx_def run_defs pval_get_def load32_store32_same load32_store32_other)

lemma vaddr_9: "wikrt_vaddr 9 = 8" "wikrt_vtag 9 = 1" "\<not> wikrt_i 9"
  by (simp_all add: wikrt_vaddr_def wikrt_vtag_def wikrt_i_def WIKRT_MASK_TAG_def WIKRT_MASK_ADDR_def)

lemma big_digits: "bigint_digits big_cx 9 = [0, 0, 10]"
proof -
  have "length (bigint_digits big_cx 9) = 3"
    by (simp add: bigint_digits_def vaddr_9 big_cx_mem)
  from bigint_digits_3[OF this] show ?thesis by (simp add: vaddr_9 big_cx_mem)
qed

lemma big_val: "wikrt_int_value big_cx 9 = Some 10000000000000000000"
  by (simp add: wikrt_int_value_def is_bigint_def vaddr_9 WIKRT_O_def big_cx_mem wikrt_otag_bigint_def LOBYTE_def
      WIKRT_OTAG_BIGINT_def bigint_positive_def big_digits)

lemma big_wf: "bigint_wf big_cx 9"
  by (simp add: bigint_wf_def big_digits)




lemmas cell_defs = wikrt_alloc_cellval_def wikrt_alloc_def WIKRT_CELLBUFF_def
    WIKRT_LNBUFF_POW2_def WIKRT_CELLSIZE_def wikrt_alloc_local_def run_prims_def run_alloc_def run_cx_def
    wikrt_tag_addr_def WIKRT_O_def pval_set_def Let_def

lemma vals_9: "wikrt_vtag 9 = WIKRT_O" "wikrt_vaddr 9 = 8"
  by (simp_all add: wikrt_vtag_def wikrt_vaddr_def WIKRT_MASK_TAG_def WIKRT_MASK_ADDR_def WIKRT_O_def)





section \<open>Seals\<close>




lemma scast_C3: "(scast (0xC3 :: 8 word) :: 32 word) = 0xFFFFFFC3"
  by (simp add: scast_eq)

lemma scast_A9: "(scast (0xA9 :: 8 word) :: 32 word) = 0xFFFFFFA9"
  by (simp add: scast_eq)

lemma seal_tag_eval:
  "seal_TAG True [0x3A, 0xC3, 0xA9] 3 OR seal_TAG True [0x3A, 0xC3, 0xA9] 2 OR
   seal_TAG True [0x3A, 0xC3, 0xA9] (Suc 0) OR WIKRT_OTAG_SEAL_SM = 0xFFFFC33A"
  by (simp add: seal_TAG_def char_to_val_def WIKRT_OTAG_SEAL_SM_def scast_C3 scast_A9)

lemma seal_cx_eval:
  "wikrt_alloc_seal run_prims True run_cx 0 [0x3A, 0xC3, 0xA9] WIKRT_UNIT = (WIKRT_OK, 9, seal_cx)"
  "pval_get seal_cx 8 0 = 0xFFFFC33A" "pval_get seal_cx 8 (Suc 0) = WIKRT_UNIT"
  by (simp_all add: seal_cx_def wikrt_alloc_seal_def seal_tag_eval cell_defs
      pval_get_def load32_store32_same load32_store32_other)

text \<open>A small seal costs one cell.\<close>

lemma alloc_seal_small_one_cell:
  assumes al: "fl_aligned prims" and s: "s ! 0 = 0x3A" "0 < length s" "length s \<le> 4"
    and r: "wikrt_alloc_seal prims cs cx sv s v = (WIKRT_OK, sv', cx')"
  shows "ct_bytes_alloc cx' = ct_bytes_alloc cx + 8"
proof -
  from s r obtain tag where
    a: "wikrt_alloc_cellval prims (sv, cx) Caller WIKRT_O tag v = (True, sv', cx')"
    by (auto simp: wikrt_alloc_seal_def Let_def split: prod.splits if_splits)
  from alloc_cellval_Caller[OF al a] show ?thesis by blast
qed

section \<open>Texts\<close>

lemma text_empty: "wikrt_alloc_text prims cx txt [] = (WIKRT_OK, WIKRT_UNIT_INR, cx)"
  by (simp add: wikrt_alloc_text_def)

lemma text_arrow: "utf8_step [0xE2, 0x86, 0x92] = Some (0x2192, [])"
  by (simp add: utf8_cont_def utf8_bits_def)

text \<open>A forbidden first codepoint is refused; an input that \<open>utf8_step\<close> cannot read ends
  the loop, and the text built so far is closed and returned.\<close>

lemma text_forbidden_first:
  assumes "utf8_step s = Some (cp, s')" "\<not> wikrt_text_char cp"
  shows "wikrt_alloc_text prims cx txt s = (WIKRT_INVAL, WIKRT_VOID, cx)"
  using assms by (cases s) (auto simp add: wikrt_alloc_text_def)

lemma text_unreadable_first:
  assumes "utf8_step s = None"
  shows "wikrt_alloc_text prims cx txt s = (WIKRT_OK, WIKRT_UNIT_INR, cx)"
  using assms by (simp add: wikrt_alloc_text_def)

section \<open>Deep copy and deep drop\<close>

















section \<open>Copy and drop in the concrete context\<close>

lemma run_cellval:
  assumes f: "fl cx = \<lparr> free_bytes = fb, frag_count = fc, size_class = [\<lparr> head = h, tail = t \<rparr>] \<rparr>"
    and h: "h AND 7 = 0" "h \<noteq> 0" "8 \<le> fb"
  shows "wikrt_alloc_cellval run_prims (x, cx) dst tag v0 v1 =
     (True, fst (ptr_set dst (wikrt_tag_addr tag h) (x, cx)),
      cx\<lparr> memory := store32 (store32 (memory (snd (ptr_set dst (wikrt_tag_addr tag h) (x, cx)))) h v0) (h + 4) v1,
          fl := \<lparr> free_bytes = fb - 8, frag_count = fc, size_class = [\<lparr> head = h + 8, tail = t \<rparr>] \<rparr>,
          ct_bytes_alloc := ct_bytes_alloc cx + 8 \<rparr>)"
  using h
  by (cases dst)
     (simp_all add: wikrt_alloc_cellval_def wikrt_alloc_def WIKRT_CELLBUFF_def WIKRT_LNBUFF_POW2_def
      WIKRT_CELLSIZE_def wikrt_alloc_local_def run_prims_def run_alloc_def f pval_set_def Let_def)














section \<open>Deep sums of left wraps\<close>

lemma dirs_L_vals:
  "dirs_L (Suc 0) = 2" "dirs_L 11 = 0x2AAAAA" "dirs_L 12 = 0xAAAAAA"
  by (simp_all add: eval_nat_numeral WIKRT_DEEPSUML_def)

lemma dirs_L_bit: "bit (dirs_L k) n \<Longrightarrow> n < 2 * k"
proof (induction k arbitrary: n)
  case 0
  then show ?case by simp
next
  case (Suc k)
  from Suc.prems consider "2 \<le> n" "bit (dirs_L k) (n - 2)" | "bit (2 :: 32 word) n"
    by (auto simp: bit_or_iff bit_push_bit_iff WIKRT_DEEPSUML_def)
  then show ?case
  proof cases
    case 1
    from Suc.IH[OF 1(2)] 1(1) show ?thesis by simp
  next
    case 2
    have "(2 :: 32 word) < 2 ^ 2" by simp
    from bit_lt[OF this 2] show ?thesis by simp
  qed
qed

lemma dirs_L_lt: "k \<le> 11 \<Longrightarrow> dirs_L k < 2 ^ 22"
  by (rule bits_lt) (auto dest: dirs_L_bit)

lemma dirs_L_nz: "dirs_L (Suc k) \<noteq> 0"
proof
  assume "dirs_L (Suc k) = 0"
  then have "bit (push_bit 2 (dirs_L k) OR (2 :: 32 word)) 1 = bit (0 :: 32 word) 1"
    by (simp add: WIKRT_DEEPSUML_def)
  then show False by (simp add: bit_or_iff)
qed

lemma store32_twice: "store32 (store32 m a w) a w' = store32 m a w'"
  by (rule ext) (simp add: store32_def)

lemma pval_set_twice: "pval_set (pval_set cx a i w) a i w' = pval_set cx a i w'"
  by (simp add: pval_set_def store32_twice)

lemma pval_get_set_same: "pval_get (pval_set cx a i w) a i = w"
  by (simp add: pval_get_def pval_set_def load32_store32_same)

lemma pval_get_set_01: "pval_get (pval_set cx a 0 w) a (Suc 0) = pval_get cx a (Suc 0)"
  by (simp add: pval_get_def pval_set_def load32_store32_other)

section \<open>Memory in use and the allocator contract\<close>

lemma block_8: "block a 8 = {a, a + 1, a + 2, a + 3, a + 4, a + 5, a + 6, a + 7}"
proof -
  have "{..<8::nat} = {0, 1, 2, 3, 4, 5, 6, 7}" by auto
  then show ?thesis by (simp add: block_def)
qed

lemma load32_cong:
  assumes "m' p = m p" "m' (p + 1) = m (p + 1)" "m' (p + 2) = m (p + 2)" "m' (p + 3) = m (p + 3)"
  shows "load32 m' p = load32 m p"
  using assms by (simp add: load32_def)

lemma pval_get_frame:
  assumes "\<And>x. x \<in> block a 8 \<Longrightarrow> memory cx' x = memory cx x"
  shows "pval_get cx' a 0 = pval_get cx a 0" "pval_get cx' a (Suc 0) = pval_get cx a (Suc 0)"
  unfolding pval_get_def
  by (rule load32_cong; rule assms; simp add: block_8 add.assoc)+

lemma store32_frame: "x \<notin> {b, b + 1, b + 2, b + 3} \<Longrightarrow> store32 m b w x = m x"
  by (simp add: store32_def)

lemma pval_set_frame:
  assumes "x \<notin> block a 8" "i < 2"
  shows "memory (pval_set cx a i w) x = memory cx x"
proof -
  from assms(2) consider "i = 0" | "i = 1" by linarith
  then show ?thesis
  proof cases
    case 1
    then show ?thesis using assms(1) by (simp add: pval_set_def block_8 store32_frame)
  next
    case 2
    then show ?thesis using assms(1) by (simp add: pval_set_def block_8 store32_frame add.assoc)
  qed
qed

lemma heap_alloc:
  assumes "heap_ok prims I F" "I cx" "wikrt_alloc prims cx sz = (True, a, cx')"
  shows "I cx'" "block a (WIKRT_CELLBUFF sz) \<subseteq> F cx"
    "F cx' \<subseteq> F cx - block a (WIKRT_CELLBUFF sz)"
    "x \<notin> F cx \<Longrightarrow> memory cx' x = memory cx x"
proof -
  from assms(1) have "\<forall>cx sz a cx'. I cx \<and> wikrt_alloc prims cx sz = (True, a, cx') \<longrightarrow>
        I cx' \<and> block a (WIKRT_CELLBUFF sz) \<subseteq> F cx \<and>
        F cx' \<subseteq> F cx - block a (WIKRT_CELLBUFF sz) \<and>
        (\<forall>x. x \<notin> F cx \<longrightarrow> memory cx' x = memory cx x)"
    unfolding heap_ok_def by (rule conjunct1)
  from this[rule_format, of cx sz a cx'] assms(2,3)
  have r: "I cx' \<and> block a (WIKRT_CELLBUFF sz) \<subseteq> F cx \<and>
        F cx' \<subseteq> F cx - block a (WIKRT_CELLBUFF sz) \<and>
        (\<forall>x. x \<notin> F cx \<longrightarrow> memory cx' x = memory cx x)" by simp
  from r show "I cx'" by (rule conjunct1)
  from r show "block a (WIKRT_CELLBUFF sz) \<subseteq> F cx" by simp
  from r show "F cx' \<subseteq> F cx - block a (WIKRT_CELLBUFF sz)" by simp
  from r show "x \<notin> F cx \<Longrightarrow> memory cx' x = memory cx x" by simp
qed

lemma heap_free:
  assumes "heap_ok prims I F" "I cx" "x \<notin> F cx" "x \<notin> block a (WIKRT_CELLBUFF sz)"
  shows "memory (wikrt_free prims cx sz a) x = memory cx x"
proof -
  from assms(1) have "\<forall>cx sz a x. I cx \<and> x \<notin> F cx \<and> x \<notin> block a (WIKRT_CELLBUFF sz) \<longrightarrow>
        memory (wikrt_free prims cx sz a) x = memory cx x"
    unfolding heap_ok_def by (elim conjE)
  from this[rule_format, of cx x a sz] assms(2-) show ?thesis by simp
qed

lemma heap_mem:
  assumes "heap_ok prims I F" "I cx" "\<forall>x\<in>F cx. m x = memory cx x"
  shows "I (cx\<lparr> memory := m \<rparr>)" "F (cx\<lparr> memory := m \<rparr>) = F cx"
proof -
  from assms(1) have "\<forall>cx m. I cx \<and> (\<forall>x\<in>F cx. m x = memory cx x) \<longrightarrow>
        I (cx\<lparr> memory := m \<rparr>) \<and> F (cx\<lparr> memory := m \<rparr>) = F cx"
    unfolding heap_ok_def by (elim conjE)
  from this[rule_format, of cx m] assms(2-)
  show "I (cx\<lparr> memory := m \<rparr>)" "F (cx\<lparr> memory := m \<rparr>) = F cx" by simp_all
qed

lemma heap_write:
  assumes h: "heap_ok prims I F" and i: "I cx" and d: "block a 8 \<inter> F cx = {}" and lt: "i < 2"
  shows "I (pval_set cx a i w)" "F (pval_set cx a i w) = F cx"
proof -
  have m: "\<forall>x\<in>F cx. store32 (memory cx) (a + 4 * of_nat i) w x = memory cx x"
  proof
    fix x assume "x \<in> F cx"
    with d have "x \<notin> block a 8" by blast
    from pval_set_frame[OF this lt, of cx w] show "store32 (memory cx) (a + 4 * of_nat i) w x = memory cx x"
      by (simp add: pval_set_def)
  qed
  from heap_mem[OF h i m] show "I (pval_set cx a i w)" "F (pval_set cx a i w) = F cx"
    by (simp_all add: pval_set_def)
qed

lemma alloc_cellval_heap:
  assumes al: "fl_aligned prims" and h: "heap_ok prims I F" and i: "I cx"
    and r: "wikrt_alloc_cellval prims (x, cx) Caller tag v0 v1 = (True, x', cx')"
  shows "\<exists>a. a AND 7 = 0 \<and> a \<noteq> 0 \<and> x' = wikrt_tag_addr tag a \<and>
     pval_get cx' a 0 = v0 \<and> pval_get cx' a (Suc 0) = v1 \<and>
     ct_bytes_alloc cx' = ct_bytes_alloc cx + 8 \<and>
     I cx' \<and> block a 8 \<subseteq> F cx \<and> F cx' \<subseteq> F cx - block a 8 \<and>
     (\<forall>x. x \<notin> F cx \<longrightarrow> memory cx' x = memory cx x)"
proof -
  obtain ok a cx1 where A: "wikrt_alloc prims cx WIKRT_CELLSIZE = (ok, a, cx1)"
    by (cases "wikrt_alloc prims cx WIKRT_CELLSIZE") auto
  with r have ok: ok by (auto simp: wikrt_alloc_cellval_def split: if_splits)
  with A have A': "wikrt_alloc prims cx WIKRT_CELLSIZE = (True, a, cx1)" by simp
  from wikrt_alloc_True[OF A' al] have a: "a AND 7 = 0" "a \<noteq> 0"
    and ct: "ct_bytes_alloc cx1 = ct_bytes_alloc cx + 8"
    by (simp_all add: cellbuff_12 WIKRT_CELLSIZE_def)
  have H: "I cx1" "block a 8 \<subseteq> F cx" "F cx1 \<subseteq> F cx - block a 8"
    "\<And>x. x \<notin> F cx \<Longrightarrow> memory cx1 x = memory cx x"
    using heap_alloc[OF h i A'] by (simp_all add: cellbuff_12 WIKRT_CELLSIZE_def)
  from r A' have x': "x' = wikrt_tag_addr tag a"
    and cx': "cx' = pval_set (pval_set cx1 a 0 v0) a 1 v1"
    by (simp_all add: wikrt_alloc_cellval_def)
  have g: "pval_get cx' a 0 = v0" "pval_get cx' a (Suc 0) = v1" "ct_bytes_alloc cx' = ct_bytes_alloc cx + 8"
    by (simp_all add: cx' pval_get_def pval_set_def load32_store32_same load32_store32_other ct)
  from H(3) have d1: "block a 8 \<inter> F cx1 = {}" by blast
  note w0 = heap_write[OF h H(1) d1, of 0 v0]
  from d1 w0(2) have d2: "block a 8 \<inter> F (pval_set cx1 a 0 v0) = {}" by simp
  note w1 = heap_write[OF h w0(1) d2, of 1 v1]
  have I': "I cx'" and F': "F cx' \<subseteq> F cx - block a 8"
    using w1 w0(2) H(3) by (simp_all add: cx')
  have fr: "memory cx' x = memory cx x" if "x \<notin> F cx" for x
  proof -
    from that H(2) have nb: "x \<notin> block a 8" by blast
    show ?thesis unfolding cx'
      by (simp add: pval_set_frame[OF nb] H(4)[OF that])
  qed
  from a x' g I' H(2) F' fr show ?thesis by blast
qed

section \<open>Successive wraps and unwraps in one cell\<close>

lemma wrap_sums_append:
  "wrap_sums prims (xs @ ys) (v, cx) =
     (case wrap_sums prims xs (v, cx) of
        (st, c, cx') \<Rightarrow> if st = WIKRT_OK then wrap_sums prims ys (c, cx') else (st, c, cx'))"
  by (induction xs arbitrary: v cx) (auto split: prod.splits)

lemma wrap_sums_cases:
  "fst (wrap_sums prims ts (v, cx)) = WIKRT_OK \<or> fst (wrap_sums prims ts (v, cx)) = WIKRT_CXFULL"
proof (induction ts arbitrary: v cx)
  case Nil
  then show ?case by simp
next
  case (Cons t ts)
  obtain st c cx' where r: "wikrt_alloc_sum prims cx v t v = (st, c, cx')"
    by (cases "wikrt_alloc_sum prims cx v t v") auto
  with alloc_sum_cases[of prims cx v t v] have "st = WIKRT_OK \<or> st = WIKRT_CXFULL" by simp
  with r Cons.IH[of c cx'] show ?case by auto
qed

lemma unwrap_sums_add:
  "unwrap_sums prims (m + n) (c, cx) =
     (case unwrap_sums prims m (c, cx) of
        (st, ts, v, cx') \<Rightarrow>
          if st = WIKRT_OK then
            (case unwrap_sums prims n (v, cx') of (st', ts', v', cx'') \<Rightarrow> (st', ts @ ts', v', cx''))
          else (st, ts, v, cx'))"
  by (induction m arbitrary: c cx) (auto split: prod.splits)

lemma tagw_lt:
  assumes "k \<le> 11"
  shows "push_bit 8 (dirs_L k) OR WIKRT_OTAG_DEEPSUM < push_bit 30 1"
proof -
  have "push_bit 8 (dirs_L k) OR WIKRT_OTAG_DEEPSUM < 2 ^ 30"
  proof (rule bits_lt)
    fix n assume "bit (push_bit 8 (dirs_L k) OR WIKRT_OTAG_DEEPSUM) n"
    then consider "8 \<le> n" "bit (dirs_L k) (n - 8)" | "bit (83 :: 32 word) n"
      by (auto simp: bit_or_iff bit_push_bit_iff WIKRT_OTAG_DEEPSUM_def)
    then show "n < 30"
    proof cases
      case 1
      from dirs_L_bit[OF 1(2)] assms 1(1) show ?thesis by simp
    next
      case 2
      have "(83 :: 32 word) < 2 ^ 7" by simp
      from bit_lt[OF this 2] show ?thesis by simp
    qed
  qed simp
  then show ?thesis by simp
qed

lemma tagw_12: "\<not> push_bit 8 (dirs_L 12) OR WIKRT_OTAG_DEEPSUM < push_bit 30 1"
  by (simp add: dirs_L_vals WIKRT_OTAG_DEEPSUM_def)

text \<open>Wraps that fit the tag word of an existing cell change that word only.\<close>

lemma wrap_inplace:
  assumes tag: "wikrt_vtag c = WIKRT_O"
  shows "pval_get cx (wikrt_vaddr c) 0 = push_bit 8 (dirs_L k) OR WIKRT_OTAG_DEEPSUM \<Longrightarrow>
     k + n \<le> 12 \<Longrightarrow>
     \<exists>m. wrap_sums prims (replicate n False) (c, cx) = (WIKRT_OK, c, cx\<lparr> memory := m \<rparr>) \<and>
         (\<forall>x. x \<notin> block (wikrt_vaddr c) 8 \<longrightarrow> m x = memory cx x) \<and>
         pval_get (cx\<lparr> memory := m \<rparr>) (wikrt_vaddr c) 0 = push_bit 8 (dirs_L (k + n)) OR WIKRT_OTAG_DEEPSUM \<and>
         pval_get (cx\<lparr> memory := m \<rparr>) (wikrt_vaddr c) (Suc 0) = pval_get cx (wikrt_vaddr c) (Suc 0)"
proof (induction n arbitrary: cx k)
  case 0
  have "cx\<lparr> memory := memory cx \<rparr> = cx" by simp
  with 0 show ?case
    by (intro exI[of _ "memory cx"]) simp
next
  case (Suc n)
  let ?a = "wikrt_vaddr c"
  let ?w = "push_bit 8 (dirs_L (Suc k)) OR WIKRT_OTAG_DEEPSUM"
  let ?cx1 = "pval_set cx ?a 0 ?w"
  from Suc.prems have k: "k \<le> 11" by simp
  have d: "wikrt_otag_deepsum (pval_get cx ?a 0)"
    unfolding Suc.prems(1) by (rule deepsum_low)
  have lt: "pval_get cx ?a 0 < push_bit 30 1"
    unfolding Suc.prems(1) by (rule tagw_lt[OF k])
  have d8: "drop_bit 8 (pval_get cx ?a 0) = dirs_L k"
    unfolding Suc.prems(1) using dirs_L_lt[OF k] by (intro drop8_mk) (simp add: order_less_trans)
  have s: "wikrt_alloc_sum prims cx c False c = (WIKRT_OK, c, ?cx1)"
    unfolding alloc_sum_inplace[OF tag d lt] d8 by (simp add: WIKRT_DEEPSUML_def)
  have g: "pval_get ?cx1 ?a 0 = ?w" by (rule pval_get_set_same)
  from Suc.prems(2) have le: "Suc k + n \<le> 12" by simp
  from Suc.IH[OF g le] obtain m where
    m: "wrap_sums prims (replicate n False) (c, ?cx1) = (WIKRT_OK, c, ?cx1\<lparr> memory := m \<rparr>)"
      "\<And>x. x \<notin> block ?a 8 \<Longrightarrow> m x = memory ?cx1 x"
      "pval_get (?cx1\<lparr> memory := m \<rparr>) ?a 0 = push_bit 8 (dirs_L (Suc k + n)) OR WIKRT_OTAG_DEEPSUM"
      "pval_get (?cx1\<lparr> memory := m \<rparr>) ?a (Suc 0) = pval_get ?cx1 ?a (Suc 0)"
    by blast
  have e: "?cx1\<lparr> memory := m \<rparr> = cx\<lparr> memory := m \<rparr>" by (simp add: pval_set_def)
  have r1: "wrap_sums prims (replicate (Suc n) False) (c, cx) = (WIKRT_OK, c, cx\<lparr> memory := m \<rparr>)"
    using s m(1) e by simp
  have r2: "m x = memory cx x" if "x \<notin> block ?a 8" for x
    using m(2)[OF that] pval_set_frame[OF that, of 0 cx ?w] by simp
  have r3: "pval_get (cx\<lparr> memory := m \<rparr>) ?a 0 = push_bit 8 (dirs_L (k + Suc n)) OR WIKRT_OTAG_DEEPSUM"
    using m(3) e by simp
  have r4: "pval_get (cx\<lparr> memory := m \<rparr>) ?a (Suc 0) = pval_get cx ?a (Suc 0)"
    using m(4) e by (simp add: pval_get_set_01)
  from r1 r2 r3 r4 show ?case by blast
qed

text \<open>Unwraps that empty the tag word of a cell of \<open>n + 1\<close> left directions.\<close>

lemma unwrap_cell:
  assumes tag: "wikrt_vtag c = WIKRT_O"
  shows "pval_get cx (wikrt_vaddr c) 0 = push_bit 8 (dirs_L (Suc n)) OR WIKRT_OTAG_DEEPSUM \<Longrightarrow>
     Suc n \<le> 12 \<Longrightarrow>
     \<exists>cx'. unwrap_sums prims (Suc n) (c, cx) =
        (WIKRT_OK, replicate (Suc n) False, pval_get cx (wikrt_vaddr c) (Suc 0), cx')"
proof (induction n arbitrary: cx)
  case 0
  have cell: "pval_get cx (wikrt_vaddr c) 0 = push_bit 8 (if False then 3 else 2) OR WIKRT_OTAG_DEEPSUM"
    using 0(1) by (simp add: WIKRT_DEEPSUML_def)
  show ?case
    by (simp add: split_deepsum_last[OF tag cell])
next
  case (Suc n)
  let ?a = "wikrt_vaddr c"
  let ?cx1 = "pval_set cx ?a 0 (push_bit 8 (dirs_L (Suc n)) OR WIKRT_OTAG_DEEPSUM)"
  from Suc.prems(2) have n: "Suc n \<le> 11" by simp
  have cell: "pval_get cx ?a 0 =
      push_bit 8 (push_bit 2 (dirs_L (Suc n)) OR (if False then 3 else 2)) OR WIKRT_OTAG_DEEPSUM"
    using Suc.prems(1) by (simp add: WIKRT_DEEPSUML_def)
  have s: "wikrt_split_sum prims cx c = (WIKRT_OK, False, c, ?cx1)"
    by (rule split_deepsum_inplace[OF tag cell dirs_L_lt[OF n] dirs_L_nz])
  have g: "pval_get ?cx1 ?a 0 = push_bit 8 (dirs_L (Suc n)) OR WIKRT_OTAG_DEEPSUM"
    by (rule pval_get_set_same)
  from Suc.prems(2) have le: "Suc n \<le> 12" by simp
  from Suc.IH[OF g le] obtain cx' where
    "unwrap_sums prims (Suc n) (c, ?cx1) =
        (WIKRT_OK, replicate (Suc n) False, pval_get ?cx1 ?a (Suc 0), cx')" by blast
  then have "unwrap_sums prims (Suc (Suc n)) (c, cx) =
        (WIKRT_OK, replicate (Suc (Suc n)) False, pval_get cx ?a (Suc 0), cx')"
    using s by (simp add: pval_get_set_01)
  then show ?case by blast
qed

section \<open>Fourteen left wraps\<close>

lemma unit_vals:
  "wikrt_vtag WIKRT_UNIT = WIKRT_P" "wikrt_vaddr WIKRT_UNIT = 0"
  "wikrt_vtag WIKRT_UNIT_INL = WIKRT_PL" "wikrt_vaddr WIKRT_UNIT_INL = 0"
  "wikrt_tag_addr WIKRT_PL 0 = WIKRT_UNIT_INL" "wikrt_tag_addr WIKRT_P 0 = WIKRT_UNIT"
  by (simp_all add: wikrt_vtag_def wikrt_vaddr_def wikrt_tag_addr_def WIKRT_UNIT_def WIKRT_UNIT_INL_def
      WIKRT_P_def WIKRT_PL_def WIKRT_MASK_TAG_def WIKRT_MASK_ADDR_def)

lemma wrap_unit: "wikrt_alloc_sum prims cx c0 False WIKRT_UNIT = (WIKRT_OK, WIKRT_UNIT_INL, cx)"
  by (simp add: alloc_sum_P[OF unit_vals(1)] unit_vals)

lemma unwrap_unit_inl:
  "wikrt_split_sum prims cx WIKRT_UNIT_INL = (WIKRT_OK, False, WIKRT_UNIT, cx)"
  by (simp add: wikrt_split_sum_def unit_vals Let_def)

lemma wrap_fresh_L:
  assumes "wikrt_vtag v \<noteq> WIKRT_P"
    "\<not> (wikrt_vtag v = WIKRT_O \<and> wikrt_otag_deepsum (pval_get cx (wikrt_vaddr v) 0) \<and>
        pval_get cx (wikrt_vaddr v) 0 < push_bit 30 1)"
  shows "wikrt_alloc_sum prims cx v False v =
    (case wikrt_alloc_cellval prims (v, cx) Caller WIKRT_O
            (push_bit 8 (dirs_L (Suc 0)) OR WIKRT_OTAG_DEEPSUM) v of
       (ok, c', cx') \<Rightarrow> if \<not> ok then (WIKRT_CXFULL, c', cx') else (WIKRT_OK, c', cx'))"
  using alloc_sum_fresh[OF assms, of prims v False] by (simp add: WIKRT_DEEPSUML_def)

lemma block_self: "a \<in> block a 8"
  by (simp add: block_8)

lemma replicate_14: "replicate 14 False = False # False # replicate 11 False @ [False]"
  by (simp add: eval_nat_numeral)

lemma deep_sum_wraps:
  assumes al: "fl_aligned prims" and h: "heap_ok prims I F" and i: "I cx"
    and r: "wrap_sums prims (replicate 14 False) (WIKRT_UNIT, cx) = (WIKRT_OK, c, cx')"
  shows "\<exists>c1. wikrt_vtag c = WIKRT_O \<and> wikrt_vtag c1 = WIKRT_O \<and> wikrt_vaddr c1 \<noteq> wikrt_vaddr c \<and>
      wikrt_vaddr c \<noteq> 0 \<and> wikrt_vaddr c1 \<noteq> 0 \<and>
      pval_get cx' (wikrt_vaddr c) 0 = push_bit 8 (dirs_L (Suc 0)) OR WIKRT_OTAG_DEEPSUM \<and>
      pval_get cx' (wikrt_vaddr c) (Suc 0) = c1 \<and>
      pval_get cx' (wikrt_vaddr c1) 0 = push_bit 8 (dirs_L 12) OR WIKRT_OTAG_DEEPSUM \<and>
      pval_get cx' (wikrt_vaddr c1) (Suc 0) = WIKRT_UNIT_INL \<and>
      ct_bytes_alloc cx' = ct_bytes_alloc cx + 16 \<and> I cx' \<and>
      block (wikrt_vaddr c1) 8 \<inter> F cx' = {} \<and>
      block (wikrt_vaddr c1) 8 \<inter> block (wikrt_vaddr c) 8 = {}"
proof -
  define tw where "tw = push_bit 8 (dirs_L (Suc 0)) OR WIKRT_OTAG_DEEPSUM"
  note fresh = wrap_fresh_L[folded tw_def]
  have nP: "wikrt_vtag WIKRT_UNIT_INL \<noteq> WIKRT_P"
    and nO: "\<not> (wikrt_vtag WIKRT_UNIT_INL = WIKRT_O \<and>
        wikrt_otag_deepsum (pval_get cx (wikrt_vaddr WIKRT_UNIT_INL) 0) \<and>
        pval_get cx (wikrt_vaddr WIKRT_UNIT_INL) 0 < push_bit 30 1)"
    using tags_distinct by (simp_all add: unit_vals)
  obtain ok c1 cx2 where A1:
    "wikrt_alloc_cellval prims (WIKRT_UNIT_INL, cx) Caller WIKRT_O tw WIKRT_UNIT_INL = (ok, c1, cx2)"
    by (cases "wikrt_alloc_cellval prims (WIKRT_UNIT_INL, cx) Caller WIKRT_O tw WIKRT_UNIT_INL") auto
  have s2: "wikrt_alloc_sum prims cx WIKRT_UNIT_INL False WIKRT_UNIT_INL =
      (if \<not> ok then (WIKRT_CXFULL, c1, cx2) else (WIKRT_OK, c1, cx2))"
    by (simp only: fresh[OF nP nO] A1 prod.case)
  from r have ok: ok and r2: "wrap_sums prims (replicate 11 False @ [False]) (c1, cx2) = (WIKRT_OK, c, cx')"
    by (simp_all add: replicate_14 wrap_unit s2 split: if_splits)
  from A1 ok have A1': "wikrt_alloc_cellval prims (WIKRT_UNIT_INL, cx) Caller WIKRT_O tw WIKRT_UNIT_INL
      = (True, c1, cx2)" by simp
  from alloc_cellval_heap[OF al h i A1'] obtain a1 where a1: "a1 AND 7 = 0" "a1 \<noteq> 0"
    "c1 = wikrt_tag_addr WIKRT_O a1" "pval_get cx2 a1 0 = tw" "pval_get cx2 a1 (Suc 0) = WIKRT_UNIT_INL"
    "ct_bytes_alloc cx2 = ct_bytes_alloc cx + 8" "I cx2" "F cx2 \<subseteq> F cx - block a1 8"
    by blast
  have t1: "wikrt_vtag c1 = WIKRT_O" and v1: "wikrt_vaddr c1 = a1"
    unfolding a1(3)
    by (rule tag_of_tagged[OF a1(1) tags_fixed(1)], rule addr_of_tagged[OF a1(1) tags_fixed(1)])
  from a1(8) have d1: "block a1 8 \<inter> F cx2 = {}" by blast
  have g1: "pval_get cx2 (wikrt_vaddr c1) 0 = push_bit 8 (dirs_L (Suc 0)) OR WIKRT_OTAG_DEEPSUM"
    using a1(4) v1 unfolding tw_def by simp
  have le: "Suc 0 + 11 \<le> 12" by simp
  from wrap_inplace[OF t1 g1 le, of prims] obtain m where
    m: "wrap_sums prims (replicate 11 False) (c1, cx2) = (WIKRT_OK, c1, cx2\<lparr> memory := m \<rparr>)"
      "\<And>x. x \<notin> block a1 8 \<Longrightarrow> m x = memory cx2 x"
      "pval_get (cx2\<lparr> memory := m \<rparr>) a1 0 = push_bit 8 (dirs_L 12) OR WIKRT_OTAG_DEEPSUM"
      "pval_get (cx2\<lparr> memory := m \<rparr>) a1 (Suc 0) = WIKRT_UNIT_INL"
    unfolding v1 using a1(5) by auto
  define cx13 where "cx13 = cx2\<lparr> memory := m \<rparr>"
  have mF: "\<forall>x\<in>F cx2. m x = memory cx2 x" using d1 m(2) by blast
  from heap_mem[OF h a1(7) mF] have i13: "I cx13" and F13: "F cx13 = F cx2"
    by (simp_all add: cx13_def)
  have ct13: "ct_bytes_alloc cx13 = ct_bytes_alloc cx + 8" by (simp add: cx13_def a1(6))
  from r2 m(1) have r3: "wrap_sums prims [False] (c1, cx13) = (WIKRT_OK, c, cx')"
    by (simp add: wrap_sums_append cx13_def)
  have nP1: "wikrt_vtag c1 \<noteq> WIKRT_P" using t1 tags_distinct by simp
  have nO1: "\<not> (wikrt_vtag c1 = WIKRT_O \<and> wikrt_otag_deepsum (pval_get cx13 (wikrt_vaddr c1) 0) \<and>
        pval_get cx13 (wikrt_vaddr c1) 0 < push_bit 30 1)"
    using m(3) tagw_12 by (simp add: v1 cx13_def)
  obtain ok2 c2 cx14 where A2:
    "wikrt_alloc_cellval prims (c1, cx13) Caller WIKRT_O tw c1 = (ok2, c2, cx14)"
    by (cases "wikrt_alloc_cellval prims (c1, cx13) Caller WIKRT_O tw c1") auto
  from r3 have ok2: ok2 and c2: "c2 = c" "cx14 = cx'"
    by (simp_all add: fresh[OF nP1 nO1] A2 split: if_splits)
  from A2 ok2 c2 have A2': "wikrt_alloc_cellval prims (c1, cx13) Caller WIKRT_O tw c1 = (True, c, cx')"
    by simp
  from alloc_cellval_heap[OF al h i13 A2'] obtain a2 where a2: "a2 AND 7 = 0" "a2 \<noteq> 0"
    "c = wikrt_tag_addr WIKRT_O a2" "pval_get cx' a2 0 = tw" "pval_get cx' a2 (Suc 0) = c1"
    "ct_bytes_alloc cx' = ct_bytes_alloc cx13 + 8" "I cx'" "block a2 8 \<subseteq> F cx13"
    "F cx' \<subseteq> F cx13 - block a2 8" "\<And>x. x \<notin> F cx13 \<Longrightarrow> memory cx' x = memory cx13 x"
    by blast
  have t2: "wikrt_vtag c = WIKRT_O" and v2: "wikrt_vaddr c = a2"
    unfolding a2(3)
    by (rule tag_of_tagged[OF a2(1) tags_fixed(1)], rule addr_of_tagged[OF a2(1) tags_fixed(1)])
  have d12: "block a1 8 \<inter> block a2 8 = {}" using a2(8) d1 F13 by blast
  have dF: "block a1 8 \<inter> F cx' = {}" using a2(9) d1 F13 by blast
  have ne: "a1 \<noteq> a2" using d12 block_self[of a1] block_self[of a2] by blast
  have fr: "memory cx' x = memory cx13 x" if "x \<in> block a1 8" for x
    using that d1 F13 by (intro a2(10)) blast
  have g13: "pval_get cx' a1 0 = push_bit 8 (dirs_L 12) OR WIKRT_OTAG_DEEPSUM"
    "pval_get cx' a1 (Suc 0) = WIKRT_UNIT_INL"
    using pval_get_frame[of a1 cx' cx13, OF fr] m(3,4) by (simp_all add: cx13_def)
  have ct: "ct_bytes_alloc cx' = ct_bytes_alloc cx + 16" using a2(6) ct13 by simp
  show ?thesis
    using t1 t2 ne a1(2) a2(2) a2(4,5) g13 ct a2(7) dF d12 unfolding v1[symmetric] v2[symmetric] tw_def
    by (intro exI[of _ c1]) simp
qed

lemma deep_sum_unwraps:
  assumes h: "heap_ok prims I F" and i: "I cx'"
    and t: "wikrt_vtag c = WIKRT_O" "wikrt_vtag c1 = WIKRT_O"
    and g: "pval_get cx' (wikrt_vaddr c) 0 = push_bit 8 (dirs_L (Suc 0)) OR WIKRT_OTAG_DEEPSUM"
      "pval_get cx' (wikrt_vaddr c) (Suc 0) = c1"
      "pval_get cx' (wikrt_vaddr c1) 0 = push_bit 8 (dirs_L 12) OR WIKRT_OTAG_DEEPSUM"
      "pval_get cx' (wikrt_vaddr c1) (Suc 0) = WIKRT_UNIT_INL"
    and d: "block (wikrt_vaddr c1) 8 \<inter> F cx' = {}"
      "block (wikrt_vaddr c1) 8 \<inter> block (wikrt_vaddr c) 8 = {}"
  shows "\<exists>cx''. unwrap_sums prims 14 (c, cx') = (WIKRT_OK, replicate 14 False, WIKRT_UNIT, cx'')"
proof -
  define cx15 where "cx15 = wikrt_free prims cx' WIKRT_CELLSIZE (wikrt_vaddr c)"
  have cell: "pval_get cx' (wikrt_vaddr c) 0 = push_bit 8 (if False then 3 else 2) OR WIKRT_OTAG_DEEPSUM"
    using g(1) by (simp add: WIKRT_DEEPSUML_def)
  have u1: "wikrt_split_sum prims cx' c = (WIKRT_OK, False, c1, cx15)"
    using split_deepsum_last[OF t(1) cell, of prims] g(2) by (simp add: cx15_def)
  have fr: "memory cx15 x = memory cx' x" if "x \<in> block (wikrt_vaddr c1) 8" for x
    unfolding cx15_def
  proof (rule heap_free[OF h i])
    show "x \<notin> F cx'" using that d(1) by blast
    show "x \<notin> block (wikrt_vaddr c) (WIKRT_CELLBUFF WIKRT_CELLSIZE)"
      using that d(2) by (auto simp add: cellbuff_12 WIKRT_CELLSIZE_def)
  qed
  have g15: "pval_get cx15 (wikrt_vaddr c1) 0 = push_bit 8 (dirs_L (Suc 11)) OR WIKRT_OTAG_DEEPSUM"
    "pval_get cx15 (wikrt_vaddr c1) (Suc 0) = WIKRT_UNIT_INL"
    using pval_get_frame[of "wikrt_vaddr c1" cx15 cx', OF fr] g(3,4) by (simp_all add: eval_nat_numeral)
  have le: "Suc 11 \<le> 12" by simp
  from unwrap_cell[OF t(2) g15(1) le, of prims] obtain cx27 where
    u12: "unwrap_sums prims (Suc 11) (c1, cx15) = (WIKRT_OK, replicate (Suc 11) False, WIKRT_UNIT_INL, cx27)"
    using g15(2) by auto
  have u14: "unwrap_sums prims (Suc 0) (WIKRT_UNIT_INL, cx27) = (WIKRT_OK, [False], WIKRT_UNIT, cx27)"
    by (simp add: unwrap_unit_inl)
  have u13: "unwrap_sums prims (Suc 11 + Suc 0) (c1, cx15) =
      (WIKRT_OK, replicate (Suc 11) False @ [False], WIKRT_UNIT, cx27)"
    by (subst unwrap_sums_add) (simp only: u12 u14 prod.case refl if_True)
  have e: "(14 :: nat) = Suc (Suc 11 + Suc 0)" by simp
  have "unwrap_sums prims 14 (c, cx') = (WIKRT_OK, False # replicate (Suc 11) False @ [False], WIKRT_UNIT, cx27)"
    unfolding e unwrap_sums.simps u1 using u13 by simp
  moreover have "False # replicate (Suc 11) False @ [False] = replicate 14 False"
    by (simp add: eval_nat_numeral)
  ultimately show ?thesis by auto
qed

text \<open>The contract holds of \<open>run_prims\<close>.\<close>

lemma run_alloc_local:
  "wikrt_alloc_local run_prims cx sz =
    (case size_class (fl cx) of
       [] \<Rightarrow> (False, 0, cx)
     | c # cs \<Rightarrow>
         if head c AND 7 = 0 \<and> head c \<noteq> 0 \<and> sz \<le> free_bytes (fl cx) then
           (True, head c, cx\<lparr> fl := (fl cx)\<lparr> free_bytes := free_bytes (fl cx) - sz,
                size_class := c\<lparr> head := head c + sz \<rparr> # cs \<rparr>,
              ct_bytes_alloc := ct_bytes_alloc cx + ucast sz \<rparr>)
         else (False, 0, cx))"
  by (auto simp add: wikrt_alloc_local_def run_prims_def run_alloc_def split: list.splits)

lemma run_acquire_shm:
  "fl (snd (wikrt_acquire_shm run_prims cx sz)) = fl cx"
  by (simp add: wikrt_acquire_shm_def run_prims_def split: prod.splits)

lemma fl_zero_fails: "\<not> fst (wikrt_alloc_local run_prims cx sz)" if "fl cx = wikrt_fl_zero"
  using that by (auto simp add: run_alloc_local wikrt_fl_zero_def WIKRT_FLCT_def eval_nat_numeral split: list.splits)

lemma run_alloc_local_fst:
  "fst (wikrt_alloc_local run_prims cx sz) =
    (case size_class (fl cx) of [] \<Rightarrow> False
     | c # cs \<Rightarrow> head c AND 7 = 0 \<and> head c \<noteq> 0 \<and> sz \<le> free_bytes (fl cx))"
  by (simp add: run_alloc_local split: list.splits)

lemma run_acquire_fl:
  "fl (wikrt_acquire_shared_memory run_prims cx sz) = fl cx \<or>
   fl (wikrt_acquire_shared_memory run_prims cx sz) = wikrt_fl_zero"
proof -
  obtain ok1 cx1 where s1: "wikrt_acquire_shm run_prims cx sz = (ok1, cx1)"
    by (cases "wikrt_acquire_shm run_prims cx sz") auto
  from run_acquire_shm[of cx sz] s1 have f1: "fl cx1 = fl cx" by simp
  show ?thesis
  proof (cases ok1)
    case True
    with s1 f1 show ?thesis by (simp add: wikrt_acquire_shared_memory_def)
  next
    case False
    define cx3 where "cx3 = cx1\<lparr> memory := memory cx1, fl := wikrt_fl_zero, cxm_fl := cxm_fl cx1 \<rparr>"
    obtain ok4 cx4 where s4: "wikrt_acquire_shm run_prims cx3 sz = (ok4, cx4)"
      by (cases "wikrt_acquire_shm run_prims cx3 sz") auto
    from run_acquire_shm[of cx3 sz] s4 have f4: "fl cx4 = wikrt_fl_zero" by (simp add: cx3_def)
    have "fl (wikrt_acquire_shared_memory run_prims cx sz) = wikrt_fl_zero"
      using False s1 s4 f4
      by (simp add: wikrt_acquire_shared_memory_def run_prims_def cx3_def Let_def)
    then show ?thesis by simp
  qed
qed

lemma run_alloc_ok:
  assumes "wikrt_alloc run_prims cx sz0 = (True, a, cx')"
  shows "\<exists>c cs. size_class (fl cx) = c # cs \<and> a = head c \<and>
      WIKRT_CELLBUFF sz0 \<le> free_bytes (fl cx) \<and>
      cx' = cx\<lparr> fl := (fl cx)\<lparr> free_bytes := free_bytes (fl cx) - WIKRT_CELLBUFF sz0,
                size_class := c\<lparr> head := head c + WIKRT_CELLBUFF sz0 \<rparr> # cs \<rparr>,
              ct_bytes_alloc := ct_bytes_alloc cx + ucast (WIKRT_CELLBUFF sz0) \<rparr>"
proof (cases "fst (wikrt_alloc_local run_prims cx (WIKRT_CELLBUFF sz0))")
  case True
  then have "wikrt_alloc run_prims cx sz0 = wikrt_alloc_local run_prims cx (WIKRT_CELLBUFF sz0)"
    by (cases "wikrt_alloc_local run_prims cx (WIKRT_CELLBUFF sz0)") (simp add: wikrt_alloc_def Let_def)
  with assms show ?thesis
    by (auto simp add: run_alloc_local split: list.splits if_splits)
next
  case False
  then have e: "wikrt_alloc_local run_prims cx (WIKRT_CELLBUFF sz0) = (False, 0, cx)"
    by (auto simp add: run_alloc_local split: list.splits if_splits)
  let ?cx2 = "wikrt_acquire_shared_memory run_prims cx (WIKRT_PAGEBUFF (WIKRT_CELLBUFF sz0))"
  have "\<not> fst (wikrt_alloc_local run_prims ?cx2 (WIKRT_CELLBUFF sz0))"
    using run_acquire_fl[of cx "WIKRT_PAGEBUFF (WIKRT_CELLBUFF sz0)"]
  proof
    assume "fl ?cx2 = fl cx"
    with False show ?thesis by (simp add: run_alloc_local_fst split: list.splits)
  next
    assume "fl ?cx2 = wikrt_fl_zero"
    then show ?thesis by (rule fl_zero_fails)
  qed
  moreover have "wikrt_alloc run_prims cx sz0 = wikrt_alloc_local run_prims ?cx2 (WIKRT_CELLBUFF sz0)"
    by (simp add: wikrt_alloc_def Let_def e)
  ultimately have False using assms by (metis fst_conv)
  then show ?thesis ..
qed

lemma block_mono: "n \<le> k \<Longrightarrow> block a n \<subseteq> block a k"
  by (auto simp add: block_def word_le_nat_alt)

lemma block_rest:
  assumes "n \<le> k"
  shows "block (a + n) (k - n) \<subseteq> block a k - block a n"
proof
  fix x assume "x \<in> block (a + n) (k - n)"
  then obtain j where j: "j < unat (k - n)" "x = a + n + of_nat j" by (auto simp: block_def)
  from assms have u: "unat (k - n) = unat k - unat n" by (simp add: unat_sub)
  have x: "x = a + of_nat (unat n + j)" using j(2) by simp
  from j(1) u have lt: "unat n + j < unat k" by simp
  then have in1: "x \<in> block a k" unfolding x block_def by blast
  have "x \<notin> block a n"
  proof
    assume "x \<in> block a n"
    then obtain i where i: "i < unat n" "x = a + of_nat i" by (auto simp: block_def)
    with x have "(of_nat (unat n + j) :: 32 word) = of_nat i" by simp
    then have "unat (of_nat (unat n + j) :: 32 word) = unat (of_nat i :: 32 word)" by simp
    moreover have "unat (of_nat (unat n + j) :: 32 word) = unat n + j"
      using lt by (intro le_unat_uoi[of _ k]) simp
    moreover have "unat (of_nat i :: 32 word) = i"
      using i(1) by (intro le_unat_uoi[of _ n]) simp
    ultimately have "unat n + j = i" by simp
    with i(1) show False by simp
  qed
  with in1 show "x \<in> block a k - block a n" by simp
qed

lemma run_heap_ok: "heap_ok run_prims (\<lambda>cx. True) run_free"
  unfolding heap_ok_def
proof (intro conjI allI impI)
  fix cx sz a cx'
  assume "True \<and> wikrt_alloc run_prims cx sz = (True, a, cx')"
  then have "wikrt_alloc run_prims cx sz = (True, a, cx')" by simp
  from run_alloc_ok[OF this] obtain c cs where c: "size_class (fl cx) = c # cs" "a = head c"
    "WIKRT_CELLBUFF sz \<le> free_bytes (fl cx)"
    "cx' = cx\<lparr> fl := (fl cx)\<lparr> free_bytes := free_bytes (fl cx) - WIKRT_CELLBUFF sz,
                size_class := c\<lparr> head := head c + WIKRT_CELLBUFF sz \<rparr> # cs \<rparr>,
              ct_bytes_alloc := ct_bytes_alloc cx + ucast (WIKRT_CELLBUFF sz) \<rparr>"
    by blast
  show "True" by simp
  show "block a (WIKRT_CELLBUFF sz) \<subseteq> run_free cx"
    using block_mono[OF c(3)] by (simp add: run_free_def c(1,2))
  show "run_free cx' \<subseteq> run_free cx - block a (WIKRT_CELLBUFF sz)"
    using block_rest[OF c(3)] by (simp add: run_free_def c)
  show "memory cx' x = memory cx x" for x by (simp add: c(4))
next
  fix cx sz a x
  show "memory (wikrt_free run_prims cx sz a) x = memory cx x"
    by (simp add: wikrt_free_def run_prims_def Let_def)
next
  fix cx :: wikrt_cx and m
  show "True" by simp
  show "run_free (cx\<lparr> memory := m \<rparr>) = run_free cx" by (simp add: run_free_def split: list.splits)
qed

lemma run_wraps_ok:
  "fst (wrap_sums run_prims (replicate 14 False) (WIKRT_UNIT, run_cx)) = WIKRT_OK"
proof -
  define tw where "tw = push_bit 8 (dirs_L (Suc 0)) OR WIKRT_OTAG_DEEPSUM"
  note fresh = wrap_fresh_L[folded tw_def]
  define cxA where "cxA = run_cx\<lparr> memory := store32 (store32 (memory run_cx) 8 tw) 12 WIKRT_UNIT_INL,
      fl := \<lparr> free_bytes = 4088, frag_count = 1, size_class = [\<lparr> head = 16, tail = 8 \<rparr>] \<rparr>,
      ct_bytes_alloc := 8 \<rparr>"
  have f0: "fl run_cx = \<lparr> free_bytes = 4096, frag_count = 1, size_class = [\<lparr> head = 8, tail = 8 \<rparr>] \<rparr>"
    by (simp add: run_cx_def)
  have A1: "wikrt_alloc_cellval run_prims (WIKRT_UNIT_INL, run_cx) Caller WIKRT_O tw WIKRT_UNIT_INL =
      (True, 9, cxA)"
    by (subst run_cellval[OF f0]) (simp_all add: cxA_def wikrt_tag_addr_def WIKRT_O_def run_cx_def)
  have nP: "wikrt_vtag WIKRT_UNIT_INL \<noteq> WIKRT_P"
    and nO: "\<not> (wikrt_vtag WIKRT_UNIT_INL = WIKRT_O \<and>
        wikrt_otag_deepsum (pval_get run_cx (wikrt_vaddr WIKRT_UNIT_INL) 0) \<and>
        pval_get run_cx (wikrt_vaddr WIKRT_UNIT_INL) 0 < push_bit 30 1)"
    using tags_distinct by (simp_all add: unit_vals)
  have s2: "wikrt_alloc_sum run_prims run_cx WIKRT_UNIT_INL False WIKRT_UNIT_INL = (WIKRT_OK, 9, cxA)"
    by (simp only: fresh[OF nP nO] A1 prod.case) simp
  have g1: "pval_get cxA (wikrt_vaddr 9) 0 = push_bit 8 (dirs_L (Suc 0)) OR WIKRT_OTAG_DEEPSUM"
    by (simp add: vals_9 cxA_def pval_get_def load32_store32_same load32_store32_other tw_def)
  have le: "Suc 0 + 11 \<le> 12" by simp
  from wrap_inplace[OF vals_9(1) g1 le, of run_prims] obtain m where
    m: "wrap_sums run_prims (replicate 11 False) (9, cxA) = (WIKRT_OK, 9, cxA\<lparr> memory := m \<rparr>)"
      "pval_get (cxA\<lparr> memory := m \<rparr>) (wikrt_vaddr 9) 0 = push_bit 8 (dirs_L 12) OR WIKRT_OTAG_DEEPSUM"
    by auto
  have nP1: "wikrt_vtag 9 \<noteq> WIKRT_P" using vals_9(1) tags_distinct by simp
  have nO1: "\<not> (wikrt_vtag 9 = WIKRT_O \<and>
        wikrt_otag_deepsum (pval_get (cxA\<lparr> memory := m \<rparr>) (wikrt_vaddr 9) 0) \<and>
        pval_get (cxA\<lparr> memory := m \<rparr>) (wikrt_vaddr 9) 0 < push_bit 30 1)"
    using m(2) tagw_12 by simp
  have f13: "fl (cxA\<lparr> memory := m \<rparr>) =
      \<lparr> free_bytes = 4088, frag_count = 1, size_class = [\<lparr> head = 16, tail = 8 \<rparr>] \<rparr>"
    by (simp add: cxA_def)
  have A2: "fst (wikrt_alloc_cellval run_prims (9, cxA\<lparr> memory := m \<rparr>) Caller WIKRT_O tw 9)"
    by (subst run_cellval[OF f13]) simp_all
  have s14: "fst (wikrt_alloc_sum run_prims (cxA\<lparr> memory := m \<rparr>) 9 False 9) = WIKRT_OK"
    using A2 unfolding fresh[OF nP1 nO1]
    by (cases "wikrt_alloc_cellval run_prims (9, cxA\<lparr> memory := m \<rparr>) Caller WIKRT_O tw 9") simp
  have "wrap_sums run_prims (replicate 14 False) (WIKRT_UNIT, run_cx) =
      wrap_sums run_prims [False] (9, cxA\<lparr> memory := m \<rparr>)"
    by (simp add: replicate_14 wrap_unit s2 wrap_sums_append m(1))
  with s14 show ?thesis by (simp split: prod.splits)
qed

section \<open>The result of the text loop\<close>

lemma text_loop_forbidden:
  assumes "utf8_step s = Some (cp, s')" "\<not> wikrt_text_char cp"
  shows "wikrt_alloc_text_loop prims xcx tlp s = (WIKRT_INVAL, xcx)"
  using assms by (cases s) auto

lemma text_loop_unreadable:
  assumes "utf8_step s = None"
  shows "wikrt_alloc_text_loop prims xcx tlp s = (WIKRT_OK, ptr_set tlp WIKRT_UNIT_INR xcx)"
  using assms by simp

lemma text_loop_step:
  assumes "utf8_step s = Some (cp, s')" "wikrt_text_char cp"
    and "wikrt_alloc_cellval prims xcx tlp WIKRT_PL (wikrt_i2v cp) WIKRT_VOID = (ok, x1, cx1)"
  shows "wikrt_alloc_text_loop prims xcx tlp s =
     (if ok then wikrt_alloc_text_loop prims (x1, cx1) (Arena (wikrt_vaddr (ptr_get tlp (x1, cx1)) + 4)) s'
      else (WIKRT_CXFULL, x1, cx1))"
  using assms by (cases s) auto

lemma text_loop_cases:
  "fst (wikrt_alloc_text_loop prims xcx tlp s) \<in> {WIKRT_OK, WIKRT_INVAL, WIKRT_CXFULL}"
proof (induction prims xcx tlp s rule: wikrt_alloc_text_loop.induct)
  case (1 prims xcx tlp s)
  show ?case
  proof (cases "s = []")
    case True
    then show ?thesis by simp
  next
    case ne: False
    show ?thesis
    proof (cases "utf8_step s")
      case None
      then show ?thesis by simp
    next
      case (Some p)
      obtain cp s' where p: "p = (cp, s')" by (cases p)
      show ?thesis
      proof (cases "wikrt_text_char cp")
        case False
        with Some p show ?thesis by (simp add: text_loop_forbidden[of s cp s'])
      next
        case tc: True
        obtain ok x1 cx1 where a:
          "wikrt_alloc_cellval prims xcx tlp WIKRT_PL (wikrt_i2v cp) WIKRT_VOID = (ok, x1, cx1)"
          by (cases "wikrt_alloc_cellval prims xcx tlp WIKRT_PL (wikrt_i2v cp) WIKRT_VOID") auto
        show ?thesis
        proof (cases ok)
          case False
          with Some p tc a show ?thesis by (simp add: text_loop_step[of s cp s'])
        next
          case True
          from "1.IH"[OF ne Some p[symmetric] _ a[symmetric]] tc True
          have "fst (wikrt_alloc_text_loop prims (x1, cx1)
                  (Arena (wikrt_vaddr (ptr_get tlp (x1, cx1)) + 4)) s') \<in>
                {WIKRT_OK, WIKRT_INVAL, WIKRT_CXFULL}" by simp
          with Some p tc a True show ?thesis by (simp add: text_loop_step[of s cp s'])
        qed
      qed
    qed
  qed
qed

lemma text_loop_result:
  "fst (wikrt_alloc_text_loop prims xcx tlp s) = WIKRT_CXFULL \<or>
   fst (wikrt_alloc_text_loop prims xcx tlp s) = (if reads_forbidden s then WIKRT_INVAL else WIKRT_OK)"
proof (induction prims xcx tlp s rule: wikrt_alloc_text_loop.induct)
  case (1 prims xcx tlp s)
  show ?case
  proof (cases "utf8_step s")
    case None
    then show ?thesis by simp
  next
    case (Some p)
    then have ne: "s \<noteq> []" by auto
    obtain cp s' where p: "p = (cp, s')" by (cases p)
    show ?thesis
    proof (cases "wikrt_text_char cp")
      case False
      have "reads_forbidden s"
        using Some p False by (subst reads_forbidden.simps) simp
      then show ?thesis
        unfolding text_loop_forbidden[OF Some[unfolded p] False] by simp
    next
      case tc: True
      obtain ok x1 cx1 where a:
        "wikrt_alloc_cellval prims xcx tlp WIKRT_PL (wikrt_i2v cp) WIKRT_VOID = (ok, x1, cx1)"
        by (cases "wikrt_alloc_cellval prims xcx tlp WIKRT_PL (wikrt_i2v cp) WIKRT_VOID") auto
      have rf: "reads_forbidden s = reads_forbidden s'"
        using Some p tc by (subst reads_forbidden.simps) simp
      show ?thesis
      proof (cases ok)
        case False
        then show ?thesis
          unfolding text_loop_step[OF Some[unfolded p] tc a] by simp
      next
        case True
        from "1.IH"[OF ne Some p[symmetric] _ a[symmetric]] tc True
        have "fst (wikrt_alloc_text_loop prims (x1, cx1)
                (Arena (wikrt_vaddr (ptr_get tlp (x1, cx1)) + 4)) s') = WIKRT_CXFULL \<or>
              fst (wikrt_alloc_text_loop prims (x1, cx1)
                (Arena (wikrt_vaddr (ptr_get tlp (x1, cx1)) + 4)) s') =
                (if reads_forbidden s' then WIKRT_INVAL else WIKRT_OK)" by simp
        then show ?thesis
          unfolding rf text_loop_step[OF Some[unfolded p] tc a] using True by simp
      qed
    qed
  qed
qed

lemma text_result:
  "fst (wikrt_alloc_text prims cx txt s) = WIKRT_CXFULL \<or>
   fst (wikrt_alloc_text prims cx txt s) = (if reads_forbidden s then WIKRT_INVAL else WIKRT_OK)"
  unfolding wikrt_alloc_text_def by (rule text_loop_result)

lemma partial_not_forbidden: "\<not> reads_forbidden [0xE2]"
  by (subst reads_forbidden.simps) simp

section \<open>Seals: the token returned\<close>

lemma store_bytes_other:
  "(\<And>i. i < length s \<Longrightarrow> x \<noteq> a + of_nat i) \<Longrightarrow> store_bytes m a s x = m x"
proof (induction s arbitrary: m a)
  case Nil
  then show ?case by simp
next
  case (Cons b bs)
  have "store_bytes (m(a := b)) (a + 1) bs x = (m(a := b)) x"
  proof (rule Cons.IH)
    fix i assume "i < length bs"
    then have "Suc i < length (b # bs)" by simp
    from Cons.prems[OF this] show "x \<noteq> a + 1 + of_nat i" by (simp add: add.assoc)
  qed
  moreover have "x \<noteq> a" using Cons.prems[of 0] by simp
  ultimately show ?case by simp
qed

lemma word_add_neq:
  fixes a :: "32 word"
  assumes "i < j" "j < 2 ^ 32"
  shows "a + of_nat i \<noteq> a + of_nat j"
proof
  assume "a + of_nat i = a + of_nat j"
  then have "(of_nat i :: 32 word) = of_nat j" by simp
  then have "unat (of_nat i :: 32 word) = unat (of_nat j :: 32 word)" by simp
  then show False using assms by (simp add: unat_of_nat)
qed

lemma load_store_bytes:
  "length s < 2 ^ 32 \<Longrightarrow> load_bytes (store_bytes m a s) a (length s) = s"
proof (induction s arbitrary: m a)
  case Nil
  then show ?case by simp
next
  case (Cons b bs)
  have "store_bytes (m(a := b)) (a + 1) bs a = (m(a := b)) a"
  proof (rule store_bytes_other)
    fix i assume "i < length bs"
    with Cons.prems have "Suc i < 2 ^ 32" by simp
    from word_add_neq[of 0 "Suc i" a, OF _ this] show "a \<noteq> a + 1 + of_nat i"
      by (simp add: add.assoc)
  qed
  moreover have "load_bytes (store_bytes (m(a := b)) (a + 1) bs) (a + 1) (length bs) = bs"
    using Cons.prems by (intro Cons.IH) simp
  ultimately show ?case by simp
qed

lemma c_string_nul: "0 \<notin> set s \<Longrightarrow> c_string (s @ [0]) = s"
  by (induction s) (auto simp: c_string_def)

lemma lobyte_mk:
  fixes x lo :: "32 word"
  assumes "lo < 2 ^ 8"
  shows "LOBYTE (push_bit 8 x OR lo) = lo"
proof -
  have "lo AND 255 = lo" using less_mask_eq[OF assms] by (simp add: mask_eq_exp_minus_1)
  then show ?thesis by (simp add: LOBYTE_def bit.conj_disj_distrib2 push8_and_255)
qed

lemma drop8_gen:
  fixes x lo :: "32 word"
  assumes "x < 2 ^ 24" "lo < 2 ^ 8"
  shows "drop_bit 8 (push_bit 8 x OR lo) = x"
proof -
  have "drop_bit 8 (push_bit 8 x) = x"
    by (rule bit_word_eqI) (auto simp add: bit_simps dest: bit_lt[OF assms(1)])
  moreover have "drop_bit 8 lo = 0"
    by (rule bit_word_eqI) (auto simp add: bit_simps dest: bit_lt[OF assms(2)])
  ultimately show ?thesis by (simp add: drop_bit_or)
qed

lemma len_word:
  assumes "n < 64"
  shows "(of_nat n :: 32 word) < 2 ^ 24" "(of_nat n :: 32 word) AND 0x3F = of_nat n"
    "unat (of_nat n :: 32 word) = n"
proof -
  from assms have u: "unat (of_nat n :: 32 word) = n" by (simp add: unat_of_nat)
  show "unat (of_nat n :: 32 word) = n" by (rule u)
  have lt: "(of_nat n :: 32 word) < 2 ^ 6" using assms u by (simp add: word_less_nat_alt)
  then show "(of_nat n :: 32 word) < 2 ^ 24" by (simp add: word_less_nat_alt)
  from less_mask_eq[OF lt] show "(of_nat n :: 32 word) AND 0x3F = of_nat n"
    by (simp add: mask_eq_exp_minus_1)
qed

lemma pval_get_store_bytes:
  assumes "length s < 64" "i < 2"
  shows "pval_get (cx\<lparr> memory := store_bytes (memory cx) (a + 8) s \<rparr>) a i = pval_get cx a i"
proof -
  have ne: "a + of_nat k \<noteq> a + 8 + of_nat j" if "k < 8" "j < length s" for k j
  proof -
    from that assms(1) have "k < 8 + j" "8 + j < 2 ^ 32" by simp_all
    from word_add_neq[OF this, of a] show ?thesis by (simp add: add.assoc)
  qed
  have same: "store_bytes (memory cx) (a + 8) s (a + of_nat k) = memory cx (a + of_nat k)" if "k < 8" for k
    by (rule store_bytes_other) (rule ne[OF that])
  from assms(2) consider "i = 0" | "i = 1" by linarith
  then show ?thesis
  proof cases
    case 1
    from same[of 0] same[of 1] same[of 2] same[of 3] show ?thesis
      by (simp add: 1 pval_get_def load32_def)
  next
    case 2
    from same[of 4] same[of 5] same[of 6] same[of 7] show ?thesis
      by (simp add: 2 pval_get_def load32_def add.assoc)
  qed
qed

lemma seal_large_roundtrip:
  assumes al: "fl_aligned prims"
    and len: "0 < length s" "length s < 64"
    and big: "\<not> (0x3A = s ! 0 \<and> length s \<le> 4)"
    and r: "wikrt_alloc_seal prims cs cx sv0 s v = (WIKRT_OK, sv, cx')"
  shows "wikrt_split_seal prims cx' sv =
     (WIKRT_OK, s @ [0], v,
      wikrt_free prims cx' (WIKRT_CELLSIZE + of_nat (length s)) (wikrt_vaddr sv))"
proof -
  define w0 :: "32 word" where "w0 = push_bit 8 (of_nat (length s)) OR WIKRT_OTAG_SEAL"
  obtain ok dst cx1 where A: "wikrt_alloc prims cx (WIKRT_CELLSIZE + of_nat (length s)) = (ok, dst, cx1)"
    by (cases "wikrt_alloc prims cx (WIKRT_CELLSIZE + of_nat (length s))") auto
  define cx3 where "cx3 = pval_set (pval_set cx1 dst 0 w0) dst 1 v"
  from r len big A have ok: ok and sv: "sv = wikrt_tag_addr WIKRT_O dst"
    and cx': "cx' = cx3\<lparr> memory := store_bytes (memory cx3) (dst + 8) s \<rparr>"
    by (auto simp add: wikrt_alloc_seal_def Let_def w0_def cx3_def split: if_splits)
  from A ok have A': "wikrt_alloc prims cx (WIKRT_CELLSIZE + of_nat (length s)) = (True, dst, cx1)"
    by simp
  from wikrt_alloc_True[OF A' al] have d: "dst AND 7 = 0" "dst \<noteq> 0" by simp_all
  have t: "wikrt_vtag sv = WIKRT_O" and a: "wikrt_vaddr sv = dst"
    unfolding sv
    by (rule tag_of_tagged[OF d(1) tags_fixed(1)], rule addr_of_tagged[OF d(1) tags_fixed(1)])
  have g3: "pval_get cx3 dst 0 = w0" "pval_get cx3 dst (Suc 0) = v"
    by (simp_all add: cx3_def pval_get_def pval_set_def load32_store32_same load32_store32_other)
  have g: "pval_get cx' dst 0 = w0" "pval_get cx' dst (Suc 0) = v"
    unfolding cx' using pval_get_store_bytes[OF len(2), of 0 cx3 dst]
      pval_get_store_bytes[OF len(2), of 1 cx3 dst] g3 by simp_all
  have lo: "LOBYTE w0 = WIKRT_OTAG_SEAL" unfolding w0_def
    by (rule lobyte_mk) (simp add: WIKRT_OTAG_SEAL_def)
  have d8: "drop_bit 8 w0 = of_nat (length s)" unfolding w0_def
    by (rule drop8_gen[OF len_word(1)[OF len(2)]]) (simp add: WIKRT_OTAG_SEAL_def)
  have lb: "load_bytes (memory cx') (dst + 8) (length s) = s"
    unfolding cx' using len(2) by (simp add: load_store_bytes)
  show ?thesis
    using tags_distinct d(2)
    by (simp add: wikrt_split_seal_def Let_def t a g lo d8 len_word[OF len(2)] lb
        wikrt_otag_seal_sm_def wikrt_otag_seal_def WIKRT_OTAG_SEAL_def WIKRT_OTAG_SEAL_SM_def)
qed

lemma tag_bytes:
  fixes b1 b2 b3 :: "8 word"
  defines "w \<equiv> push_bit 24 (ucast b3) OR push_bit 16 (ucast b2) OR push_bit 8 (ucast b1) OR (58 :: 32 word)"
  shows "ucast (drop_bit 8 w AND 0xFF) = b1" "ucast (drop_bit 16 w AND 0xFF) = b2"
    "ucast (drop_bit 24 w AND 0xFF) = b3" "LOBYTE w = 58"
proof -
  have m: "(0xFF :: 32 word) = mask 8" by (simp add: mask_eq_exp_minus_1)
  have k: "\<not> bit (58 :: 32 word) (n + 8)" for n
  proof
    assume "bit (58 :: 32 word) (n + 8)"
    moreover have "(58 :: 32 word) < 2 ^ 8" by simp
    ultimately have "n + 8 < 8" by (rule bit_lt[rotated])
    then show False by simp
  qed
  have k16: "\<not> bit (58 :: 32 word) (n + 16)" for n using k[of "n + 8"] by (simp add: add.assoc)
  have k24: "\<not> bit (58 :: 32 word) (n + 24)" for n using k[of "n + 16"] by (simp add: add.assoc)
  show "ucast (drop_bit 8 w AND 0xFF) = b1" unfolding w_def m
    by (rule bit_word_eqI) (auto simp add: bit_simps k dest: bit_imp_le_length)
  show "ucast (drop_bit 16 w AND 0xFF) = b2" unfolding w_def m
    by (rule bit_word_eqI) (auto simp add: bit_simps k16 dest: bit_imp_le_length)
  show "ucast (drop_bit 24 w AND 0xFF) = b3" unfolding w_def m
    by (rule bit_word_eqI) (auto simp add: bit_simps k24 dest: bit_imp_le_length)
  have e: "w = push_bit 8 (push_bit 16 (ucast b3) OR push_bit 8 (ucast b2) OR ucast b1) OR 58"
    unfolding w_def by (simp add: push_bit_or ac_simps)
  have "LOBYTE (push_bit 8 (push_bit 16 (ucast b3) OR push_bit 8 (ucast b2) OR ucast b1) OR 58) = 58"
    by (rule lobyte_mk) simp
  then show "LOBYTE w = 58" by (simp only: e)
qed

lemma short_list:
  assumes "0 < length s" "length s \<le> 4"
  shows "(\<exists>a. s = [a]) \<or> (\<exists>a b. s = [a, b]) \<or> (\<exists>a b c. s = [a, b, c]) \<or>
         (\<exists>a b c d. s = [a, b, c, d])"
proof -
  from assms have "length s = 1 \<or> length s = 2 \<or> length s = 3 \<or> length s = 4" by linarith
  then show ?thesis
    by (auto simp add: length_Suc_conv eval_nat_numeral)
qed

lemma seal_small_roundtrip:
  assumes al: "fl_aligned prims"
    and sm: "0x3A = s ! 0" "0 < length s" "length s \<le> 4"
    and nz: "0 \<notin> set s"
    and uc: "\<forall>b\<in>set s. char_to_val cs b = ucast b"
    and r: "wikrt_alloc_seal prims cs cx sv0 s v = (WIKRT_OK, sv, cx')"
  shows "wikrt_split_seal prims cx' sv =
     (WIKRT_OK, s @ replicate (5 - length s) 0, v, wikrt_free prims cx' WIKRT_CELLSIZE (wikrt_vaddr sv))"
proof -
  define b where "b k = (if k < length s then s ! k else 0)" for k
  define w where "w = push_bit 24 (ucast (b 3)) OR push_bit 16 (ucast (b 2)) OR
      push_bit 8 (ucast (b 1)) OR (58 :: 32 word)"
  have T: "seal_TAG cs s k = push_bit (8 * k) (ucast (b k))" for k
    using uc by (simp add: seal_TAG_def b_def)
  have tag: "seal_TAG cs s 3 OR seal_TAG cs s 2 OR seal_TAG cs s 1 OR WIKRT_OTAG_SEAL_SM = w"
    unfolding T w_def by (simp add: WIKRT_OTAG_SEAL_SM_def)
  from r sm have "\<exists>ok. wikrt_alloc_cellval prims (sv0, cx) Caller WIKRT_O w v = (ok, sv, cx') \<and> ok"
    unfolding wikrt_alloc_seal_def Let_def tag by (auto split: prod.splits if_splits)
  then have A: "wikrt_alloc_cellval prims (sv0, cx) Caller WIKRT_O w v = (True, sv, cx')" by auto
  from alloc_cellval_Caller[OF al A] obtain a where a: "a AND 7 = 0" "a \<noteq> 0"
    "sv = wikrt_tag_addr WIKRT_O a" "pval_get cx' a 0 = w" "pval_get cx' a 1 = v" by blast
  have t: "wikrt_vtag sv = WIKRT_O" and va: "wikrt_vaddr sv = a"
    unfolding a(3)
    by (rule tag_of_tagged[OF a(1) tags_fixed(1)], rule addr_of_tagged[OF a(1) tags_fixed(1)])
  note tb = tag_bytes[of "b 3" "b 2" "b 1", folded w_def]
  have sp: "wikrt_split_seal prims cx' sv =
      (WIKRT_OK, [0x3A, b 1, b 2, b 3, 0], v, wikrt_free prims cx' WIKRT_CELLSIZE a)"
    using tags_distinct a(2) a(5)
    by (simp add: wikrt_split_seal_def Let_def t va a(4) wikrt_otag_seal_sm_def
        WIKRT_OTAG_SEAL_SM_def tb)
  have "[0x3A, b 1, b 2, b 3, 0] = s @ replicate (5 - length s) 0"
    using short_list[OF sm(2,3)] sm(1) by (auto simp add: b_def eval_nat_numeral)
  with sp va show ?thesis by simp
qed

lemma scast_ascii:
  fixes b :: "8 word"
  assumes "b < 0x80"
  shows "(scast b :: 32 word) = ucast b"
proof -
  have "b AND mask 7 = b" using assms less_mask_eq[of b 7] by simp
  then have "bit b 7 = bit (b AND mask 7) 7" by simp
  then have n7: "\<not> bit b 7" by (simp add: bit_and_iff bit_mask_iff)
  have hi: "\<not> bit b n" if "7 \<le> n" for n
  proof
    assume h: "bit b n"
    from bit_imp_le_length[OF h] that have "n = 7" by simp
    with h n7 show False by simp
  qed
  show ?thesis
    by (rule bit_word_eqI) (auto simp add: bit_signed_iff bit_unsigned_iff n7 hi min_def)
qed

lemma c_string_pad: "0 \<notin> set s \<Longrightarrow> c_string (s @ replicate n 0) = s"
  by (induction s) (auto simp: c_string_def takeWhile_replicate)

text \<open>
  A token of 1 to 63 nonzero bytes is returned by \<open>unwrap_seal\<close> as it was given, with
  the sealed value, unless plain \<open>char\<close> is signed and the token is a small one that
  holds a byte of 0x80 or more.
\<close>

lemma seal_roundtrip:
  assumes al: "fl_aligned prims"
    and len: "0 < length s" "length s < 64"
    and nz: "0 \<notin> set s"
    and uc: "cs \<and> 0x3A = s ! 0 \<and> length s \<le> 4 \<longrightarrow> (\<forall>b\<in>set s. b < 0x80)"
    and r: "wikrt_alloc_seal prims cs cx sv0 s v = (WIKRT_OK, sv, cx')"
  shows "\<exists>buff cx''. wikrt_split_seal prims cx' sv = (WIKRT_OK, buff, v, cx'') \<and> c_string buff = s"
proof (cases "0x3A = s ! 0 \<and> length s \<le> 4")
  case True
  have u: "\<forall>b\<in>set s. char_to_val cs b = ucast b"
  proof (cases cs)
    case False
    then show ?thesis by (simp add: char_to_val_def)
  next
    case cs: True
    with uc True have "\<forall>b\<in>set s. b < 0x80" by simp
    then show ?thesis by (simp add: char_to_val_def scast_ascii)
  qed
  from True have sm: "0x3A = s ! 0" "length s \<le> 4" by simp_all
  from seal_small_roundtrip[OF al sm(1) len(1) sm(2) nz u r] c_string_pad[OF nz]
  show ?thesis by simp
next
  case False
  from seal_large_roundtrip[OF al len False r] c_string_nul[OF nz]
  show ?thesis by simp
qed

section \<open>Claims\<close>

text \<open>
  C2. \<open>int_div\<close> with a nonzero divisor performs floor division: it returns a quotient
  \<open>q\<close> and a remainder \<open>r\<close> with \<open>dividend = divisor * q + r\<close>, where the remainder
  lies in \<open>[0, divisor)\<close> for a positive divisor and in \<open>(divisor, 0]\<close> for a negative
  one (it never has the sign opposite to the divisor's); \<open>11 / 3\<close> gives \<open>(3, 2)\<close>,
  \<open>-11 / 3\<close> gives \<open>(-4, 1)\<close>, \<open>11 / -3\<close> gives \<open>(-4, -1)\<close>, \<open>-11 / -3\<close> gives
  \<open>(3, -2)\<close>; a zero divisor fails with \<open>WIKRT_TYPE_ERROR\<close>.
\<close>

theorem int_div_floor:
  "(divisor \<noteq> 0 \<longrightarrow>
      (\<exists>q r. int_div dividend divisor = Inr (q, r) \<and> dividend = divisor * q + r \<and>
         (0 < divisor \<longrightarrow> 0 \<le> r \<and> r < divisor) \<and>
         (divisor < 0 \<longrightarrow> divisor < r \<and> r \<le> 0))) \<and>
   int_div 11 3 = Inr (3, 2) \<and> int_div (- 11) 3 = Inr (- 4, 1) \<and>
   int_div 11 (- 3) = Inr (- 4, - 1) \<and> int_div (- 11) (- 3) = Inr (3, - 2) \<and>
   int_div dividend 0 = Inl WIKRT_TYPE_ERROR"
  by (simp add: int_div_def)

theorem int_div_floor_witness:
  "(3 :: int) \<noteq> 0 \<and> int_div (- 11) 3 = Inr (- 4, 1) \<and> - 11 = (3 :: int) * (- 4) + 1 \<and>
   (0 :: int) < 3 \<and> (0 :: int) \<le> 1 \<and> (1 :: int) < 3"
  using int_div_floor[of 3 "- 11"] by simp

text \<open>
  C10. When the integer value does not fit the requested width, \<open>peek_i32\<close> returns
  \<open>WIKRT_BUFFSZ\<close> and stores \<open>INT32_MAX\<close> for a positive and \<open>INT32_MIN\<close> for a
  negative value, and \<open>peek_i64\<close> does likewise with \<open>INT64_MAX\<close> and \<open>INT64_MIN\<close>.
  The value is the small integer in the reference or the well-formed big integer the
  reference points to. Both functions only read the context (they return no context),
  so the stored value is neither consumed nor modified.
\<close>

theorem peek_saturates:
  assumes "wikrt_int_value cx v = Some i"
    and "\<not> wikrt_i v \<longrightarrow> bigint_wf cx v"
  shows "(\<not> (- (2 ^ 31) \<le> i \<and> i < 2 ^ 31) \<longrightarrow>
            wikrt_peek_i32 cx v = (WIKRT_BUFFSZ, if 0 < i then INT32_MAX else INT32_MIN)) \<and>
         (\<not> (- (2 ^ 63) \<le> i \<and> i < 2 ^ 63) \<longrightarrow>
            wikrt_peek_i64 cx v = (WIKRT_BUFFSZ, if 0 < i then INT64_MAX else INT64_MIN))"
  using assms by (rule peek_saturates_aux)

theorem peek_saturates_witness:
  "wikrt_int_value big_cx 9 = Some 10000000000000000000 \<and> bigint_wf big_cx 9 \<and>
   wikrt_peek_i32 big_cx 9 = (WIKRT_BUFFSZ, INT32_MAX) \<and>
   wikrt_peek_i64 big_cx 9 = (WIKRT_BUFFSZ, INT64_MAX)"
  using peek_saturates[OF big_val] big_val big_wf by simp






text \<open>
  C1 (second half, at the input \<open>"0"\<close>). \<open>_wikrt_alloc_istr\<close> is a stub: whatever the
  decimal string, it stores \<open>WIKRT_VOID\<close> and returns \<open>WIKRT_IMPL\<close>, and \<open>peek_i64\<close> of
  that value is a type error, whereas \<open>intro_i64(0)\<close> yields the small integer \<open>0\<close>. The
  first half of the claim is lemma \<open>i64_roundtrip\<close>.
\<close>

theorem intro_istr_not_implemented:
  "wikrt_alloc_istr cx [0x30] = (WIKRT_IMPL, Some WIKRT_VOID, cx) \<and>
   wikrt_peek_i64 cx WIKRT_VOID = (WIKRT_TYPE_ERROR, INT64_MIN) \<and>
   wikrt_alloc_i64 prims cx 0 = (WIKRT_OK, Some 0, cx) \<and>
   wikrt_peek_i64 cx 0 = (WIKRT_OK, 0)"
  by (simp add: wikrt_alloc_istr_def wikrt_peek_i64_def wikrt_peek_medint_def wikrt_i_def
      WIKRT_VOID_def WIKRT_O_def wikrt_vaddr_def wikrt_vtag_def WIKRT_MASK_ADDR_def WIKRT_MASK_TAG_def
      wikrt_alloc_i64_def WIKRT_SMALLINT_MIN_def WIKRT_SMALLINT_MAX_def wikrt_i2v_def wikrt_v2i_def)
















text \<open>
  C4: with a signed plain \<open>char\<close>, sealing unit with the three-byte token \<open>3A C3 A9\<close> (a
  colon and U+00E9) succeeds, but the cast \<open>(wikrt_val)s[N]\<close> extends the sign of the
  bytes C3 and A9 into the higher bytes of the tag word, and \<open>unwrap_seal\<close> returns the
  token \<open>3A C3 FF FF\<close> instead.
\<close>

theorem seal_small_token_not_returned:
  "wikrt_alloc_seal run_prims True run_cx 0 [0x3A, 0xC3, 0xA9] WIKRT_UNIT = (WIKRT_OK, 9, seal_cx) \<and>
   fst (wikrt_split_seal run_prims seal_cx 9) = WIKRT_OK \<and>
   fst (snd (wikrt_split_seal run_prims seal_cx 9)) = [0x3A, 0xC3, 0xFF, 0xFF, 0] \<and>
   c_string [0x3A, 0xC3, 0xFF, 0xFF, 0] \<noteq> [0x3A, 0xC3, 0xA9]"
  by (simp add: seal_cx_eval wikrt_split_seal_def vals_9 WIKRT_O_def Let_def wikrt_otag_seal_sm_def
      LOBYTE_def WIKRT_OTAG_SEAL_SM_def c_string_def)


theorem seal_small_token_not_returned_witness:
  "fst (wikrt_alloc_seal run_prims True run_cx 0 [0x3A, 0xC3, 0xA9] WIKRT_UNIT) = WIKRT_OK \<and>
   c_string (fst (snd (wikrt_split_seal run_prims seal_cx 9))) = [0x3A, 0xC3, 0xFF, 0xFF]"
  using seal_small_token_not_returned by (simp add: c_string_def)








text \<open>
  C8. Let the allocator keep its contract. Wrapping unit in fourteen successive left
  sums either fails with \<open>WIKRT_CXFULL\<close> or succeeds, and then exactly two cells, 16
  bytes, have been allocated: the result refers to a deep-sum cell whose tag word holds
  one direction and whose value is a second deep-sum cell, whose tag word holds twelve
  directions (the word is full) and whose value is the shallow sum unit-in-left.
  Fourteen successive unwraps of the result then return the direction left each time
  and end at unit.
\<close>

theorem deep_sum_fourteen:
  assumes "fl_aligned prims" and "heap_ok prims I F" and "I cx"
  shows "(fst (wrap_sums prims (replicate 14 False) (WIKRT_UNIT, cx)) = WIKRT_OK \<or>
          fst (wrap_sums prims (replicate 14 False) (WIKRT_UNIT, cx)) = WIKRT_CXFULL) \<and>
     (\<forall>c cx'. wrap_sums prims (replicate 14 False) (WIKRT_UNIT, cx) = (WIKRT_OK, c, cx') \<longrightarrow>
        ct_bytes_alloc cx' = ct_bytes_alloc cx + 16 \<and>
        (\<exists>c1. wikrt_vtag c = WIKRT_O \<and> wikrt_vtag c1 = WIKRT_O \<and>
              wikrt_vaddr c1 \<noteq> wikrt_vaddr c \<and> wikrt_vaddr c \<noteq> 0 \<and> wikrt_vaddr c1 \<noteq> 0 \<and>
              pval_get cx' (wikrt_vaddr c) 0 = push_bit 8 (dirs_L 1) OR WIKRT_OTAG_DEEPSUM \<and>
              pval_get cx' (wikrt_vaddr c) 1 = c1 \<and>
              pval_get cx' (wikrt_vaddr c1) 0 = push_bit 8 (dirs_L 12) OR WIKRT_OTAG_DEEPSUM \<and>
              pval_get cx' (wikrt_vaddr c1) 1 = WIKRT_UNIT_INL) \<and>
        (\<exists>cx''. unwrap_sums prims 14 (c, cx') = (WIKRT_OK, replicate 14 False, WIKRT_UNIT, cx'')))"
proof (intro conjI allI impI)
  show "fst (wrap_sums prims (replicate 14 False) (WIKRT_UNIT, cx)) = WIKRT_OK \<or>
        fst (wrap_sums prims (replicate 14 False) (WIKRT_UNIT, cx)) = WIKRT_CXFULL"
    by (rule wrap_sums_cases)
next
  fix c cx'
  assume r: "wrap_sums prims (replicate 14 False) (WIKRT_UNIT, cx) = (WIKRT_OK, c, cx')"
  from deep_sum_wraps[OF assms r] obtain c1 where
    w: "wikrt_vtag c = WIKRT_O" "wikrt_vtag c1 = WIKRT_O" "wikrt_vaddr c1 \<noteq> wikrt_vaddr c"
      "wikrt_vaddr c \<noteq> 0" "wikrt_vaddr c1 \<noteq> 0"
      "pval_get cx' (wikrt_vaddr c) 0 = push_bit 8 (dirs_L (Suc 0)) OR WIKRT_OTAG_DEEPSUM"
      "pval_get cx' (wikrt_vaddr c) (Suc 0) = c1"
      "pval_get cx' (wikrt_vaddr c1) 0 = push_bit 8 (dirs_L 12) OR WIKRT_OTAG_DEEPSUM"
      "pval_get cx' (wikrt_vaddr c1) (Suc 0) = WIKRT_UNIT_INL"
      "ct_bytes_alloc cx' = ct_bytes_alloc cx + 16" "I cx'"
      "block (wikrt_vaddr c1) 8 \<inter> F cx' = {}"
      "block (wikrt_vaddr c1) 8 \<inter> block (wikrt_vaddr c) 8 = {}"
    by blast
  show "ct_bytes_alloc cx' = ct_bytes_alloc cx + 16" by (rule w(10))
  show "\<exists>c1. wikrt_vtag c = WIKRT_O \<and> wikrt_vtag c1 = WIKRT_O \<and>
              wikrt_vaddr c1 \<noteq> wikrt_vaddr c \<and> wikrt_vaddr c \<noteq> 0 \<and> wikrt_vaddr c1 \<noteq> 0 \<and>
              pval_get cx' (wikrt_vaddr c) 0 = push_bit 8 (dirs_L 1) OR WIKRT_OTAG_DEEPSUM \<and>
              pval_get cx' (wikrt_vaddr c) 1 = c1 \<and>
              pval_get cx' (wikrt_vaddr c1) 0 = push_bit 8 (dirs_L 12) OR WIKRT_OTAG_DEEPSUM \<and>
              pval_get cx' (wikrt_vaddr c1) 1 = WIKRT_UNIT_INL"
    using w(1-9) by (intro exI[of _ c1]) simp
  show "\<exists>cx''. unwrap_sums prims 14 (c, cx') = (WIKRT_OK, replicate 14 False, WIKRT_UNIT, cx'')"
    by (rule deep_sum_unwraps[OF assms(2) w(11) w(1,2) w(6-9) w(12,13)])
qed


theorem deep_sum_fourteen_witness:
  "fl_aligned run_prims \<and> heap_ok run_prims (\<lambda>cx. True) run_free \<and>
   fst (wrap_sums run_prims (replicate 14 False) (WIKRT_UNIT, run_cx)) = WIKRT_OK \<and>
   ct_bytes_alloc (snd (snd (wrap_sums run_prims (replicate 14 False) (WIKRT_UNIT, run_cx)))) = 16 \<and>
   fst (unwrap_sums run_prims 14 (snd (wrap_sums run_prims (replicate 14 False) (WIKRT_UNIT, run_cx))))
     = WIKRT_OK \<and>
   fst (snd (unwrap_sums run_prims 14 (snd (wrap_sums run_prims (replicate 14 False) (WIKRT_UNIT, run_cx)))))
     = replicate 14 False \<and>
   fst (snd (snd (unwrap_sums run_prims 14
      (snd (wrap_sums run_prims (replicate 14 False) (WIKRT_UNIT, run_cx)))))) = WIKRT_UNIT"
proof -
  obtain c cx' where r: "wrap_sums run_prims (replicate 14 False) (WIKRT_UNIT, run_cx) = (WIKRT_OK, c, cx')"
    using run_wraps_ok by (cases "wrap_sums run_prims (replicate 14 False) (WIKRT_UNIT, run_cx)") auto
  have i: "(\<lambda>cx. True) run_cx" by simp
  from deep_sum_fourteen[OF run_prims_aligned run_heap_ok i] r
  obtain cx'' where "ct_bytes_alloc cx' = ct_bytes_alloc run_cx + 16"
    "unwrap_sums run_prims 14 (c, cx') = (WIKRT_OK, replicate 14 False, WIKRT_UNIT, cx'')"
    by blast
  with r run_prims_aligned run_heap_ok show ?thesis by (simp add: run_cx_def)
qed

end
